theory Spec2Isabelle
  imports Complex_Main "HOL-Library.Product_Lexorder"
begin

section \<open>Common ground: exceptions and NumPy primitives\<close>

text \<open>
  Every \<^verbatim>\<open>raise\<close> of the Python sources is a value of the sum type \<open>error + 'a\<close>
  (\<open>Inl\<close> the exception). The repository raises \<^verbatim>\<open>ValueError\<close> itself; NumPy raises
  \<^verbatim>\<open>ValueError\<close> for a negative dimension, a shape mismatch and a reduction over an
  empty array, and \<^verbatim>\<open>IndexError\<close> for an index out of range.
\<close>

datatype error = ValueError | IndexError

definition bind_err :: "error + 'a \<Rightarrow> ('a \<Rightarrow> error + 'b) \<Rightarrow> error + 'b" where
  "bind_err m f = (case m of Inl e \<Rightarrow> Inl e | Inr x \<Rightarrow> f x)"

text \<open>
  \<^verbatim>\<open>numpy.empty(n, dtype)\<close>: a fresh array of \<open>n\<close> slots whose content is whatever
  the allocator left there. The content is a parameter \<open>junk\<close> of every operation that
  allocates, so that no theorem can depend on it.
\<close>

definition np_empty :: "(nat \<Rightarrow> 'a) \<Rightarrow> int \<Rightarrow> error + 'a list" where
  "np_empty junk n = (if n < 0 then Inl ValueError else Inr (map junk [0..<nat n]))"

text \<open>Python's slice \<^verbatim>\<open>xs[:n]\<close>; a negative bound counts from the end.\<close>

definition py_upto :: "int \<Rightarrow> 'a list \<Rightarrow> 'a list" where
  "py_upto n xs = (if n < 0 then take (length xs - nat (- n)) xs else take (nat n) xs)"

text \<open>
  NumPy's slice assignment \<^verbatim>\<open>target[:n] = source\<close>: the slots of the slice are
  overwritten, a source of one element is broadcast, any other difference of shape raises
  \<^verbatim>\<open>ValueError\<close>.
\<close>

definition np_assign_upto :: "'a list \<Rightarrow> int \<Rightarrow> 'a list \<Rightarrow> error + 'a list" where
  "np_assign_upto target n source =
     (let k = length (py_upto n target) in
      if length source = k then Inr (source @ drop k target)
      else if length source = 1 then Inr (replicate k (hd source) @ drop k target)
      else Inl ValueError)"

section \<open>\<^verbatim>\<open>hienoi/_dynamicarray.py\<close>\<close>

record 'a dynamic_array =
  da_array :: "'a list"
  da_size :: int

definition GROW_FACTOR :: rat where
  "GROW_FACTOR = 3 / 2"

definition DynamicArray_init :: "(nat \<Rightarrow> 'a) \<Rightarrow> int \<Rightarrow> error + 'a dynamic_array" where
  "DynamicArray_init junk capacity =
     bind_err (np_empty junk capacity) (\<lambda>arr. Inr \<lparr>da_array = arr, da_size = 0\<rparr>)"

definition da_capacity :: "'a dynamic_array \<Rightarrow> int" where
  "da_capacity a = int (length (da_array a))"

definition da_data :: "'a dynamic_array \<Rightarrow> 'a list" where
  "da_data a = py_upto (da_size a) (da_array a)"

text \<open>
  \<^verbatim>\<open>int(max(len(self._array) * _GROW_FACTOR, math.ceil(1.0 / (_GROW_FACTOR - 1.0)) * 2))\<close>:
  the floating-point product is exact for every capacity below \<open>2^52\<close> and is computed
  over the rationals here; \<^verbatim>\<open>int\<close> truncates, which is \<open>floor\<close> on a value that is
  not negative.
\<close>

definition grow_capacity :: "int \<Rightarrow> int \<Rightarrow> int" where
  "grow_capacity requested len =
     max requested
       \<lfloor>max (of_int len * GROW_FACTOR) (of_int (\<lceil>1 / (GROW_FACTOR - 1)\<rceil> * 2))\<rfloor>"

definition grow :: "(nat \<Rightarrow> 'a) \<Rightarrow> int \<Rightarrow> bool \<Rightarrow> 'a dynamic_array \<Rightarrow> error + 'a dynamic_array" where
  "grow junk requested copy a =
     (if requested \<le> int (length (da_array a)) then Inr a
      else
        bind_err (np_empty junk (grow_capacity requested (int (length (da_array a))))) (\<lambda>arr.
          if copy then
            bind_err (np_assign_upto arr (da_size a) (py_upto (da_size a) (da_array a))) (\<lambda>arr'.
              Inr (a\<lparr>da_array := arr'\<rparr>))
          else Inr (a\<lparr>da_array := arr, da_size := 0\<rparr>)))"

definition resize :: "(nat \<Rightarrow> 'a) \<Rightarrow> int \<Rightarrow> bool \<Rightarrow> 'a dynamic_array \<Rightarrow> error + 'a dynamic_array" where
  "resize junk requested copy a =
     bind_err (grow junk requested copy a) (\<lambda>a'. Inr (a'\<lparr>da_size := requested\<rparr>))"

definition da_clear :: "'a dynamic_array \<Rightarrow> 'a dynamic_array" where
  "da_clear a = a\<lparr>da_size := 0\<rparr>"

section \<open>\<^verbatim>\<open>hienoi/_orderedbuffer.py\<close>\<close>

text \<open>
  A bunch is the named tuple \<^verbatim>\<open>_Bunch(position, data)\<close>: a pair here. A position is the
  two-element list \<^verbatim>\<open>[bucket index, offset in the bucket]\<close>; the source never mutates
  such a list in place (it always assigns a new one), so a pair of naturals is faithful.
\<close>

record 'a ordered_buffer =
  ob_buckets :: "'a list list"
  ob_bucket_capacity :: nat
  ob_pos :: "nat \<times> nat"
  ob_bunchs :: "((nat \<times> nat) \<times> 'a list) list"

definition OrderedBuffer_init :: "int \<Rightarrow> error + 'a ordered_buffer" where
  "OrderedBuffer_init bucket_capacity =
     (if bucket_capacity < 1 then Inl ValueError
      else Inr \<lparr>ob_buckets = [], ob_bucket_capacity = nat bucket_capacity,
                ob_pos = (0, 0), ob_bunchs = []\<rparr>)"

definition ob_len :: "'a ordered_buffer \<Rightarrow> nat" where
  "ob_len b = ob_bucket_capacity b * fst (ob_pos b) + snd (ob_pos b)
              + sum_list (map (\<lambda>bunch. length (snd bunch)) (ob_bunchs b))"

text \<open>
  The inner \<^verbatim>\<open>while i < m\<close> loop of \<^verbatim>\<open>chunks\<close>, on the loop state \<open>(out, i, j)\<close>.
  Reading a bucket that does not exist raises \<^verbatim>\<open>IndexError\<close>.
\<close>

function chunks_while ::
  "'a list list \<Rightarrow> nat \<Rightarrow> 'a list list \<times> nat \<times> nat \<Rightarrow> error + ('a list list \<times> nat \<times> nat)" where
  "chunks_while buckets m (out, i, j) =
     (if i < m then
        (if i < length buckets
         then chunks_while buckets m (out @ [drop j (buckets ! i)], i + 1, 0)
         else Inl IndexError)
      else Inr (out, i, j))"
  by pat_completeness auto
termination
  by (relation "measure (\<lambda>(buckets, m, out, i, j). m - i)") auto

text \<open>The \<^verbatim>\<open>for bunch in bunchs\<close> loop of \<^verbatim>\<open>chunks\<close>.\<close>

fun chunks_for ::
  "'a list list \<Rightarrow> ((nat \<times> nat) \<times> 'a list) list \<Rightarrow> 'a list list \<times> nat \<times> nat \<Rightarrow> error + 'a list list" where
  "chunks_for buckets [] (out, i, j) = Inr out"
| "chunks_for buckets (((m, n), data) # bunchs) (out, i, j) =
     bind_err (chunks_while buckets m (out, i, j)) (\<lambda>(out1, i1, j1).
       bind_err
         (if j1 < n then
            (if i1 < length buckets
             then Inr (out1 @ [take (n - j1) (drop j1 (buckets ! i1))])
             else Inl IndexError)
          else Inr out1) (\<lambda>out2.
         chunks_for buckets bunchs (if length data \<noteq> 0 then out2 @ [data] else out2, m, n)))"

definition ob_chunks :: "'a ordered_buffer \<Rightarrow> error + 'a list list" where
  "ob_chunks b = chunks_for (ob_buckets b) (ob_bunchs b @ [(ob_pos b, [])]) ([], 0, 0)"

text \<open>
  \<^verbatim>\<open>_push(data, size)\<close>. The slice assignment \<^verbatim>\<open>self._buckets[i][j:j + size] = data\<close>
  runs under the guard \<^verbatim>\<open>bucket_capacity - j >= size\<close>, so the slice has exactly
  \<open>sz\<close> slots (\<open>sz\<close> is the source's \<^verbatim>\<open>size\<close>) and the data replaces them.
\<close>

definition ob_push :: "(nat \<Rightarrow> 'a) \<Rightarrow> 'a list \<Rightarrow> nat \<Rightarrow> 'a ordered_buffer \<Rightarrow> error + 'a ordered_buffer" where
  "ob_push junk data sz b =
     (let i = fst (ob_pos b); j = snd (ob_pos b) in
      if int (ob_bucket_capacity b) - int j \<ge> int sz then
        (let buckets =
               (if i = length (ob_buckets b)
                then ob_buckets b @ [map junk [0..<ob_bucket_capacity b]]
                else ob_buckets b)
         in if i < length buckets then
              (let bucket = take j (buckets ! i) @ data @ drop (j + sz) (buckets ! i);
                   j' = (j + sz) mod ob_bucket_capacity b
               in Inr (b\<lparr>ob_buckets := buckets[i := bucket],
                          ob_pos := (if j' = 0 then i + 1 else i, j')\<rparr>))
            else Inl IndexError)
      else Inr (b\<lparr>ob_bunchs := ob_bunchs b @ [(ob_pos b, data)]\<rparr>))"

definition ob_append :: "(nat \<Rightarrow> 'a) \<Rightarrow> 'a \<Rightarrow> 'a ordered_buffer \<Rightarrow> error + 'a ordered_buffer" where
  "ob_append junk data b = ob_push junk [data] 1 b"

definition ob_extend :: "(nat \<Rightarrow> 'a) \<Rightarrow> 'a list \<Rightarrow> 'a ordered_buffer \<Rightarrow> error + 'a ordered_buffer" where
  "ob_extend junk data b =
     (if length data < 1 then Inr b else ob_push junk data (length data) b)"

definition ob_clear :: "'a ordered_buffer \<Rightarrow> 'a ordered_buffer" where
  "ob_clear b = b\<lparr>ob_pos := (0, 0), ob_bunchs := []\<rparr>"

section \<open>\<^verbatim>\<open>hienoi/_kdtree.py\<close>\<close>

text \<open>
  Floating-point numbers are modelled by the reals, and \<^verbatim>\<open>numpy.inf\<close> (the radius when
  none is given) by the extra value \<open>Inf\<close>. The points are two-dimensional, as every
  point set of the repository is (\<^verbatim>\<open>VECTOR2F\<close> positions).
\<close>

type_synonym point = "real \<times> real"

datatype np_float = Fin real | Inf

fun np_gt :: "real \<Rightarrow> np_float \<Rightarrow> bool" where
  "np_gt x (Fin l) = (x > l)"
| "np_gt x Inf = False"

fun np_lt :: "real \<Rightarrow> np_float \<Rightarrow> bool" where
  "np_lt x (Fin l) = (x < l)"
| "np_lt x Inf = True"

fun np_le :: "real \<Rightarrow> np_float \<Rightarrow> bool" where
  "np_le x (Fin l) = (x \<le> l)"
| "np_le x Inf = True"

fun np_square :: "np_float \<Rightarrow> np_float" where
  "np_square (Fin r) = Fin (r ^ 2)"
| "np_square Inf = Inf"

record kd_node =
  node_size :: nat
  node_bucket :: int
  node_lower_bounds :: point
  node_upper_bounds :: point

record kd_tree =
  kd_data :: "point list"
  kd_n :: nat
  kd_nodes :: "kd_node list"
  kd_buckets :: "nat list list"
  kd_bucket_size :: int

text \<open>Indexing a NumPy array with an array of indices, \<^verbatim>\<open>data[indices]\<close>.\<close>

definition np_take :: "'a list \<Rightarrow> nat list \<Rightarrow> error + 'a list" where
  "np_take data indices =
     (if list_all (\<lambda>i. i < length data) indices then Inr (map (\<lambda>i. data ! i) indices)
      else Inl IndexError)"

text \<open>Indexing with one index: an array with a natural number, a Python list with an integer.\<close>

definition np_nth :: "'a list \<Rightarrow> nat \<Rightarrow> error + 'a" where
  "np_nth xs i = (if i < length xs then Inr (xs ! i) else Inl IndexError)"

definition py_nth :: "'a list \<Rightarrow> int \<Rightarrow> error + 'a" where
  "py_nth xs i =
     (let k = (if i < 0 then int (length xs) + i else i)
      in if 0 \<le> k \<and> k < int (length xs) then Inr (xs ! nat k) else Inl IndexError)"

text \<open>
  \<^verbatim>\<open>numpy.amin(points, axis=0)\<close> and \<^verbatim>\<open>numpy.amax(points, axis=0)\<close>: the minimum and
  maximum of each coordinate; a reduction over no point at all raises \<^verbatim>\<open>ValueError\<close>.
\<close>

fun np_amin :: "point list \<Rightarrow> error + point" where
  "np_amin [] = Inl ValueError"
| "np_amin (p # ps) = Inr (foldl (\<lambda>a b. (min (fst a) (fst b), min (snd a) (snd b))) p ps)"

fun np_amax :: "point list \<Rightarrow> error + point" where
  "np_amax [] = Inl ValueError"
| "np_amax (p # ps) = Inr (foldl (\<lambda>a b. (max (fst a) (fst b), max (snd a) (snd b))) p ps)"

definition coord :: "nat \<Rightarrow> point \<Rightarrow> real" where
  "coord axis p = (if axis = 0 then fst p else snd p)"

text \<open>
  The first pass of \<^verbatim>\<open>_build\<close>: the \<^verbatim>\<open>while stack\<close> loop. The loop need not end (a
  point that occurs more often than the bucket size is split off again and again), so it
  runs on fuel: \<open>None\<close> is a loop that has not returned within the fuel.
  \<^verbatim>\<open>numpy.argmax\<close> of the two side lengths is the first axis unless the second is
  strictly longer.
\<close>

fun build_loop ::
  "nat \<Rightarrow> point list \<Rightarrow> int \<Rightarrow> (nat list \<times> nat option) list \<Rightarrow> kd_node list \<Rightarrow>
   nat option list \<Rightarrow> nat list list \<Rightarrow> nat \<Rightarrow>
   (error + kd_node list \<times> nat option list \<times> nat list list) option" where
  "build_loop 0 data bucket_size stack nodes parents buckets i = None"
| "build_loop (Suc fuel) data bucket_size [] nodes parents buckets i =
     Some (Inr (nodes, parents, buckets))"
| "build_loop (Suc fuel) data bucket_size ((indices, parent) # stack) nodes parents buckets i =
     (case np_take data indices of Inl e \<Rightarrow> Some (Inl e) | Inr points \<Rightarrow>
      case np_amin points of Inl e \<Rightarrow> Some (Inl e) | Inr lower_bounds \<Rightarrow>
      case np_amax points of Inl e \<Rightarrow> Some (Inl e) | Inr upper_bounds \<Rightarrow>
        if int (length points) \<le> bucket_size then
          build_loop fuel data bucket_size stack
            (nodes @ [\<lparr>node_size = 1, node_bucket = int (length buckets),
                       node_lower_bounds = lower_bounds, node_upper_bounds = upper_bounds\<rparr>])
            (parents @ [parent]) (buckets @ [indices]) (i + 1)
        else
          (let side_lengths = (fst upper_bounds - fst lower_bounds,
                               snd upper_bounds - snd lower_bounds);
               split_axis = (if fst side_lengths \<ge> snd side_lengths then 0 else 1);
               split_location = (coord split_axis lower_bounds
                                 + coord split_axis upper_bounds) / 2;
               axis_data = map (coord split_axis) points;
               left_indices = map fst (filter (\<lambda>(j, x). x \<le> split_location) (zip indices axis_data));
               right_indices = map fst (filter (\<lambda>(j, x). x > split_location) (zip indices axis_data))
           in build_loop fuel data bucket_size
                ((left_indices, Some i) # (right_indices, Some i) # stack)
                (nodes @ [\<lparr>node_size = 1, node_bucket = - 1,
                           node_lower_bounds = lower_bounds, node_upper_bounds = upper_bounds\<rparr>])
                (parents @ [parent]) buckets (i + 1)))"

text \<open>
  The second pass: \<^verbatim>\<open>node_sizes[parents[i]] += node_sizes[i]\<close> for \<open>i\<close> from the last
  node down to \<open>1\<close>. Only the root has the parent \<^verbatim>\<open>None\<close>, and the root is never
  reached by this loop; indexing with \<^verbatim>\<open>None\<close> would address every element.
\<close>

definition add_size :: "nat option list \<Rightarrow> kd_node list \<Rightarrow> nat \<Rightarrow> kd_node list" where
  "add_size parents nodes i =
     (case parents ! i of
        Some p \<Rightarrow> nodes[p := (nodes ! p)\<lparr>node_size := node_size (nodes ! p) + node_size (nodes ! i)\<rparr>]
      | None \<Rightarrow> map (\<lambda>nd. nd\<lparr>node_size := node_size nd + node_size (nodes ! i)\<rparr>) nodes)"

definition set_sizes :: "kd_node list \<Rightarrow> nat option list \<Rightarrow> kd_node list" where
  "set_sizes nodes parents = foldl (add_size parents) nodes (rev [1..<length nodes])"

definition KDTree_init :: "nat \<Rightarrow> point list \<Rightarrow> int \<Rightarrow> (error + kd_tree) option" where
  "KDTree_init fuel data bucket_size =
     (if bucket_size < 1 then Some (Inl ValueError)
      else
        (case build_loop fuel data bucket_size [([0..<length data], None)] [] [] [] 0 of
           None \<Rightarrow> None
         | Some (Inl e) \<Rightarrow> Some (Inl e)
         | Some (Inr (nodes, parents, buckets)) \<Rightarrow>
             Some (Inr \<lparr>kd_data = data, kd_n = length data,
                        kd_nodes = set_sizes nodes parents, kd_buckets = buckets,
                        kd_bucket_size = bucket_size\<rparr>)))"

definition pt_to_node_near_dist :: "point \<Rightarrow> point \<Rightarrow> point \<Rightarrow> real" where
  "pt_to_node_near_dist p lower_bounds upper_bounds =
     (max 0 (max (fst p - fst upper_bounds) (fst lower_bounds - fst p))) ^ 2
     + (max 0 (max (snd p - snd upper_bounds) (snd lower_bounds - snd p))) ^ 2"

definition pt_to_node_far_dist :: "point \<Rightarrow> point \<Rightarrow> point \<Rightarrow> real" where
  "pt_to_node_far_dist p lower_bounds upper_bounds =
     (max 0 (max (fst upper_bounds - fst p) (fst p - fst lower_bounds))) ^ 2
     + (max 0 (max (snd upper_bounds - snd p) (snd p - snd lower_bounds))) ^ 2"

text \<open>\<^verbatim>\<open>numpy.sum((point[numpy.newaxis, :] - points) ** 2, axis=-1)\<close>, for one point.\<close>

definition sq_dist :: "point \<Rightarrow> point \<Rightarrow> real" where
  "sq_dist p q = (fst p - fst q) ^ 2 + (snd p - snd q) ^ 2"

text \<open>
  \<^verbatim>\<open>heapq\<close> is modelled by its contract on the multiset of items: \<^verbatim>\<open>heappush\<close> adds an
  item, \<^verbatim>\<open>heappushpop\<close> adds an item and then removes and returns the smallest one.
  The items are the tuples \<^verbatim>\<open>(-dist, j)\<close>, compared as Python compares tuples
  (lexicographically). The order of the heap's array is not modelled: it shows only in the
  order of an unsorted result.
\<close>

type_synonym heap_item = "real \<times> nat"

definition heappush :: "heap_item list \<Rightarrow> heap_item \<Rightarrow> heap_item list" where
  "heappush heap item = heap @ [item]"

definition heappushpop :: "heap_item list \<Rightarrow> heap_item \<Rightarrow> heap_item \<times> heap_item list" where
  "heappushpop heap item =
     (let smallest = foldl min item heap in (smallest, remove1 smallest (heap @ [item])))"

text \<open>The \<^verbatim>\<open>for j, dist in zip(indices, dists)\<close> loop of a leaf (\<open>dist'\<close> is the source's \<^verbatim>\<open>dist\<close>).\<close>

fun scan_leaf ::
  "int \<Rightarrow> (nat \<times> real) list \<Rightarrow> heap_item list \<times> np_float \<Rightarrow> heap_item list \<times> np_float" where
  "scan_leaf count [] (nearests, dist_limit) = (nearests, dist_limit)"
| "scan_leaf count ((j, dist') # rest) (nearests, dist_limit) =
     (if np_lt dist' dist_limit then
        (if int (length nearests) \<ge> count then
           (let popped = heappushpop nearests (- dist', j)
            in scan_leaf count rest (snd popped, Fin (- fst (fst popped))))
         else scan_leaf count rest (heappush nearests (- dist', j), dist_limit))
      else scan_leaf count rest (nearests, dist_limit))"

text \<open>The \<^verbatim>\<open>while stack\<close> loop of \<^verbatim>\<open>_search_k_nearests\<close>, on fuel.\<close>

fun k_nearests_loop ::
  "nat \<Rightarrow> kd_tree \<Rightarrow> point \<Rightarrow> int \<Rightarrow> (nat \<times> real) list \<Rightarrow> heap_item list \<Rightarrow> np_float \<Rightarrow>
   (error + heap_item list) option" where
  "k_nearests_loop 0 tree p count stack nearests dist_limit = None"
| "k_nearests_loop (Suc fuel) tree p count [] nearests dist_limit = Some (Inr nearests)"
| "k_nearests_loop (Suc fuel) tree p count ((i, pt_node_dist) # stack) nearests dist_limit =
     (if np_gt pt_node_dist dist_limit then
        k_nearests_loop fuel tree p count stack nearests dist_limit
      else
        (case np_nth (kd_nodes tree) i of Inl e \<Rightarrow> Some (Inl e) | Inr node \<Rightarrow>
         if node_size node = 1 then
           (case py_nth (kd_buckets tree) (node_bucket node) of Inl e \<Rightarrow> Some (Inl e) | Inr indices \<Rightarrow>
            case np_take (kd_data tree) indices of Inl e \<Rightarrow> Some (Inl e) | Inr points \<Rightarrow>
              (let dists = map (sq_dist p) points;
                   found = scan_leaf count (zip indices dists) (nearests, dist_limit)
               in k_nearests_loop fuel tree p count stack (fst found) (snd found)))
         else
           (let left_node_idx = i + 1 in
            case np_nth (kd_nodes tree) left_node_idx of Inl e \<Rightarrow> Some (Inl e) | Inr left_node \<Rightarrow>
            let right_node_idx = i + 1 + node_size left_node in
            case np_nth (kd_nodes tree) right_node_idx of Inl e \<Rightarrow> Some (Inl e) | Inr right_node \<Rightarrow>
            let pt_left_node_dist = pt_to_node_near_dist p
                  (node_lower_bounds left_node) (node_upper_bounds left_node);
                pt_right_node_dist = pt_to_node_near_dist p
                  (node_lower_bounds right_node) (node_upper_bounds right_node)
            in if pt_left_node_dist \<le> pt_right_node_dist then
                 k_nearests_loop fuel tree p count
                   ((left_node_idx, pt_left_node_dist) # (right_node_idx, pt_right_node_dist) # stack)
                   nearests dist_limit
               else
                 k_nearests_loop fuel tree p count
                   ((right_node_idx, pt_right_node_dist) # (left_node_idx, pt_left_node_dist) # stack)
                   nearests dist_limit)))"

text \<open>
  A neighbour is a record \<^verbatim>\<open>(squared_distance, index)\<close>. Sorting with
  \<^verbatim>\<open>order='squared_distance'\<close> compares the squared distances and, as NumPy documents
  for the fields that are not named, breaks ties by the remaining field, the index: this
  is the lexicographic order of the pairs.
\<close>

type_synonym neighbour = "real \<times> nat"

definition search_k_nearests ::
  "nat \<Rightarrow> kd_tree \<Rightarrow> point \<Rightarrow> int \<Rightarrow> np_float \<Rightarrow> bool \<Rightarrow> (error + neighbour list) option" where
  "search_k_nearests fuel tree p count radius do_sort =
     (case np_nth (kd_nodes tree) 0 of Inl e \<Rightarrow> Some (Inl e) | Inr root_node \<Rightarrow>
      let dist_limit = np_square radius;
          pt_root_dist = pt_to_node_near_dist p (node_lower_bounds root_node) (node_upper_bounds root_node)
      in case k_nearests_loop fuel tree p count [(0, pt_root_dist)] [] dist_limit of
           None \<Rightarrow> None
         | Some (Inl e) \<Rightarrow> Some (Inl e)
         | Some (Inr nearests) \<Rightarrow>
             (let out = map (\<lambda>item. (- fst item, snd item)) nearests
              in Some (Inr (if do_sort then sort out else out))))"

text \<open>
  The \<^verbatim>\<open>while stack\<close> loop of \<^verbatim>\<open>_search_all_within_radius\<close>, on fuel. The neighbours
  found so far are a list; a squared distance still to be computed (\<^verbatim>\<open>numpy.nan\<close> in
  the source) is \<open>None\<close>. Resizing the dynamic array of neighbours and filling the new
  slots appends to the list.
\<close>

fun all_within_loop ::
  "nat \<Rightarrow> kd_tree \<Rightarrow> point \<Rightarrow> np_float \<Rightarrow> (nat \<times> real) list \<Rightarrow> (real option \<times> nat) list \<Rightarrow>
   (error + (real option \<times> nat) list) option" where
  "all_within_loop 0 tree p radius stack neighbours = None"
| "all_within_loop (Suc fuel) tree p radius [] neighbours = Some (Inr neighbours)"
| "all_within_loop (Suc fuel) tree p radius ((i, pt_node_near_dist) # stack) neighbours =
     (if np_gt pt_node_near_dist radius then
        all_within_loop fuel tree p radius stack neighbours
      else
        (case np_nth (kd_nodes tree) i of Inl e \<Rightarrow> Some (Inl e) | Inr node \<Rightarrow>
         if np_le (pt_to_node_far_dist p (node_lower_bounds node) (node_upper_bounds node)) radius then
           (let children = take (node_size node) (drop i (kd_nodes tree));
                leaves = filter (\<lambda>c. node_size c = 1) children
            in case fold (\<lambda>leaf acc. bind_err acc (\<lambda>found.
                            bind_err (py_nth (kd_buckets tree) (node_bucket leaf)) (\<lambda>indices.
                              Inr (found @ map (\<lambda>j. (None, j)) indices))))
                      leaves (Inr neighbours) of
                 Inl e \<Rightarrow> Some (Inl e)
               | Inr neighbours' \<Rightarrow> all_within_loop fuel tree p radius stack neighbours')
         else if node_size node = 1 then
           (case py_nth (kd_buckets tree) (node_bucket node) of Inl e \<Rightarrow> Some (Inl e) | Inr indices \<Rightarrow>
            case np_take (kd_data tree) indices of Inl e \<Rightarrow> Some (Inl e) | Inr points \<Rightarrow>
              (let dists = map (sq_dist p) points;
                   is_within = filter (\<lambda>(j, dist'). np_le dist' radius) (zip indices dists)
               in all_within_loop fuel tree p radius stack
                    (neighbours @ map (\<lambda>(j, dist'). (Some dist', j)) is_within)))
         else
           (let left_node_idx = i + 1 in
            case np_nth (kd_nodes tree) left_node_idx of Inl e \<Rightarrow> Some (Inl e) | Inr left_node \<Rightarrow>
            let right_node_idx = i + 1 + node_size left_node in
            case np_nth (kd_nodes tree) right_node_idx of Inl e \<Rightarrow> Some (Inl e) | Inr right_node \<Rightarrow>
            let pt_left_node_dist = pt_to_node_near_dist p
                  (node_lower_bounds left_node) (node_upper_bounds left_node);
                pt_right_node_dist = pt_to_node_near_dist p
                  (node_lower_bounds right_node) (node_upper_bounds right_node)
            in if pt_left_node_dist \<le> pt_right_node_dist then
                 all_within_loop fuel tree p radius
                   ((left_node_idx, pt_left_node_dist) # (right_node_idx, pt_right_node_dist) # stack)
                   neighbours
               else
                 all_within_loop fuel tree p radius
                   ((right_node_idx, pt_right_node_dist) # (left_node_idx, pt_left_node_dist) # stack)
                   neighbours)))"

definition compute_distance :: "kd_tree \<Rightarrow> point \<Rightarrow> real option \<times> nat \<Rightarrow> error + neighbour" where
  "compute_distance tree p nb =
     (case fst nb of
        Some dist' \<Rightarrow> Inr (dist', snd nb)
      | None \<Rightarrow> bind_err (np_nth (kd_data tree) (snd nb)) (\<lambda>q. Inr (sq_dist p q, snd nb)))"

fun compute_distances :: "kd_tree \<Rightarrow> point \<Rightarrow> (real option \<times> nat) list \<Rightarrow> error + neighbour list" where
  "compute_distances tree p [] = Inr []"
| "compute_distances tree p (nb # nbs) =
     bind_err (compute_distance tree p nb) (\<lambda>x.
       bind_err (compute_distances tree p nbs) (\<lambda>xs. Inr (x # xs)))"

definition search_all_within_radius ::
  "nat \<Rightarrow> kd_tree \<Rightarrow> point \<Rightarrow> np_float \<Rightarrow> bool \<Rightarrow> (error + neighbour list) option" where
  "search_all_within_radius fuel tree p radius do_sort =
     (case np_nth (kd_nodes tree) 0 of Inl e \<Rightarrow> Some (Inl e) | Inr root_node \<Rightarrow>
      let radius2 = np_square radius;
          pt_root_dist = pt_to_node_near_dist p (node_lower_bounds root_node) (node_upper_bounds root_node)
      in case all_within_loop fuel tree p radius2 [(0, pt_root_dist)] [] of
           None \<Rightarrow> None
         | Some (Inl e) \<Rightarrow> Some (Inl e)
         | Some (Inr neighbours) \<Rightarrow>
             (case compute_distances tree p neighbours of
                Inl e \<Rightarrow> Some (Inl e)
              | Inr out \<Rightarrow> Some (Inr (if do_sort then sort out else out))))"

text \<open>
  \<^verbatim>\<open>KDTree.search(point, count, radius, sort)\<close>: \<open>None\<close> for \<^verbatim>\<open>count\<close> is every point,
  \<open>None\<close> for \<^verbatim>\<open>radius\<close> is no bound.
\<close>

definition search ::
  "nat \<Rightarrow> kd_tree \<Rightarrow> point \<Rightarrow> int option \<Rightarrow> real option \<Rightarrow> bool \<Rightarrow> (error + neighbour list) option" where
  "search fuel tree p count radius do_sort =
     (if count \<noteq> None \<and> the count < 1 then Some (Inr [])
      else if radius \<noteq> None \<and> the radius < 0 then Some (Inr [])
      else
        (let count' = (case count of None \<Rightarrow> int (kd_n tree) | Some c \<Rightarrow> c);
             radius' = (case radius of None \<Rightarrow> Inf | Some r \<Rightarrow> Fin r)
         in if count' \<ge> int (kd_n tree)
            then search_all_within_radius fuel tree p radius' do_sort
            else search_k_nearests fuel tree p count' radius' do_sort))"

section \<open>\<^verbatim>\<open>hienoi/dynamics.py\<close>\<close>

text \<open>
  A particle has the attributes of \<^verbatim>\<open>ParticleSimulation._ATTRS\<close>. The id is an
  \<^verbatim>\<open>Int32\<close>: storing an integer into the field wraps it around (\<open>to_int32\<close>). The
  floating-point attributes are reals.
\<close>

record particle =
  pid :: int
  alive :: bool
  position :: point
  velocity :: point
  force :: point
  mass :: real
  psize :: real
  color :: "real \<times> real \<times> real \<times> real"

definition to_int32 :: "int \<Rightarrow> int" where
  "to_int32 x = (x + 2 ^ 31) mod 2 ^ 32 - 2 ^ 31"

definition default_particle :: particle where
  "default_particle = \<lparr>pid = - 1, alive = True, position = (0, 0), velocity = (0, 0),
     force = (0, 0), mass = 1, psize = 1, color = (1, 1, 1, 1)\<rparr>"

record psim =
  ps_time_step :: real
  ps_time :: real
  ps_last_id :: int
  ps_array :: "particle dynamic_array"
  ps_buffer :: "particle ordered_buffer"
  ps_kd_tree :: "kd_tree option"

text \<open>
  A particle handed out by the simulation is a view of a slot of memory: a slot of the
  array's storage, of a bucket of the buffer, or of the data of a bunch.
\<close>

datatype handle = InStore nat | InBucket nat nat | InBunch nat nat

text \<open>The callbacks are functions of the simulation; they may raise.\<close>

type_synonym callback = "psim \<Rightarrow> error + psim"

text \<open>
  \<^verbatim>\<open>numpy.compress(filter, chunk)\<close> keeps the elements whose flag is set;
  \<^verbatim>\<open>array[i:i + count] = source\<close> overwrites \<open>count\<close> slots from \<open>i\<close> on.
\<close>

definition np_compress :: "bool list \<Rightarrow> 'a list \<Rightarrow> 'a list" where
  "np_compress flags chunk = map snd (filter fst (zip flags chunk))"

definition np_assign_slice :: "'a list \<Rightarrow> nat \<Rightarrow> nat \<Rightarrow> 'a list \<Rightarrow> 'a list" where
  "np_assign_slice target i count source = take i target @ source @ drop (i + count) target"

text \<open>
  The copy loop of \<^verbatim>\<open>consolidate\<close>, on the storage of the array. The first chunk is
  the data of the array before the call; when the storage was not reallocated the source
  reads it through a view of the very storage it writes to, front to back and never
  behind the write position, so the values read are the values before the call.
\<close>

fun copy_chunks :: "(bool list \<times> 'a list \<times> nat) list \<Rightarrow> nat \<Rightarrow> 'a list \<Rightarrow> 'a list" where
  "copy_chunks [] i array = array"
| "copy_chunks ((flags, chunk, count) # rest) i array =
     (if count = length chunk
      then copy_chunks rest (i + count) (np_assign_slice array i count chunk)
      else copy_chunks rest (i + count) (np_assign_slice array i count (np_compress flags chunk)))"

definition consolidate :: "(nat \<Rightarrow> particle) \<Rightarrow> psim \<Rightarrow> error + psim" where
  "consolidate junk sim =
     bind_err (ob_chunks (ps_buffer sim)) (\<lambda>buffer_chunks.
       let chunks = da_data (ps_array sim) # buffer_chunks;
           filters = map (map alive) chunks;
           counts = map (\<lambda>flags. length (filter (\<lambda>flag. flag) flags)) filters;
           new_size = sum_list counts
       in if ob_len (ps_buffer sim) = 0 \<and> int new_size = da_size (ps_array sim) then Inr sim
          else
            bind_err (resize junk (int new_size) False (ps_array sim)) (\<lambda>arr.
              Inr (sim\<lparr>ps_array := arr\<lparr>da_array :=
                          copy_chunks (zip filters (zip chunks counts)) 0 (da_array arr)\<rparr>,
                        ps_buffer := ob_clear (ps_buffer sim),
                        ps_kd_tree := None\<rparr>)))"

definition ParticleSimulation_init ::
  "(nat \<Rightarrow> particle) \<Rightarrow> real \<Rightarrow> int \<Rightarrow> int \<Rightarrow> callback option \<Rightarrow> error + psim" where
  "ParticleSimulation_init junk time_step initial_particle_capacity
       particle_bucket_buffer_capacity initialize_callback =
     bind_err (DynamicArray_init junk initial_particle_capacity) (\<lambda>arr.
       bind_err (OrderedBuffer_init particle_bucket_buffer_capacity) (\<lambda>buf.
         let sim = \<lparr>ps_time_step = time_step, ps_time = 0, ps_last_id = - 1,
                    ps_array = arr, ps_buffer = buf, ps_kd_tree = None\<rparr>
         in case initialize_callback of
              None \<Rightarrow> Inr sim
            | Some cb \<Rightarrow> bind_err (cb sim) (consolidate junk)))"

text \<open>
  \<^verbatim>\<open>add_particle(**kwargs)\<close>: the keyword arguments override attributes of the
  default particle, and the id is set after them. The result is the handle and the new
  state.
\<close>

definition add_particle ::
  "(nat \<Rightarrow> particle) \<Rightarrow> (particle \<Rightarrow> particle) \<Rightarrow> psim \<Rightarrow> error + handle \<times> psim" where
  "add_particle junk kwargs sim =
     (let particle = (kwargs default_particle)\<lparr>pid := to_int32 (ps_last_id sim + 1)\<rparr>
      in bind_err (ob_append junk particle (ps_buffer sim)) (\<lambda>buf.
           Inr (InBucket (fst (ob_pos (ps_buffer sim))) (snd (ob_pos (ps_buffer sim))),
                sim\<lparr>ps_buffer := buf, ps_last_id := pid particle\<rparr>)))"

text \<open>
  \<^verbatim>\<open>add_particles(count)\<close>. \<^verbatim>\<open>numpy.empty\<close> raises for a negative count; for the count
  zero the buffer returns an empty array, whose last id \<^verbatim>\<open>particles['id'][-1]\<close> raises
  \<^verbatim>\<open>IndexError\<close>. The result is the handles of the new particles and the new state.
\<close>

definition add_particles ::
  "(nat \<Rightarrow> particle) \<Rightarrow> int \<Rightarrow> psim \<Rightarrow> error + handle list \<times> psim" where
  "add_particles junk count sim =
     (if count < 0 then Inl ValueError
      else
        (let array = map (\<lambda>k. default_particle\<lparr>pid := to_int32 (ps_last_id sim + 1 + int k)\<rparr>)
                       [0..<nat count];
             i = fst (ob_pos (ps_buffer sim)); j = snd (ob_pos (ps_buffer sim))
         in bind_err (ob_extend junk array (ps_buffer sim)) (\<lambda>buf.
              if array = [] then Inl IndexError
              else
                Inr (if int (ob_bucket_capacity (ps_buffer sim)) - int j \<ge> count
                     then map (\<lambda>k. InBucket i (j + k)) [0..<nat count]
                     else map (\<lambda>k. InBunch (length (ob_bunchs (ps_buffer sim))) k) [0..<nat count],
                     sim\<lparr>ps_buffer := buf, ps_last_id := pid (last array)\<rparr>))))"

text \<open>
  \<^verbatim>\<open>numpy.searchsorted(a, v)\<close>: the binary search for the leftmost insertion point.
\<close>

function bisect_left :: "int list \<Rightarrow> int \<Rightarrow> nat \<Rightarrow> nat \<Rightarrow> nat" where
  "bisect_left a key lo hi =
     (if lo < hi then
        (let mid = lo + (hi - lo) div 2
         in if a ! mid < key then bisect_left a key (mid + 1) hi
            else bisect_left a key lo mid)
      else lo)"
  by pat_completeness auto
termination
  by (relation "measure (\<lambda>(a, key, lo, hi). hi - lo)") auto

definition searchsorted :: "int list \<Rightarrow> int \<Rightarrow> nat" where
  "searchsorted a key = bisect_left a key 0 (length a)"

text \<open>
  \<^verbatim>\<open>get_particle(id)\<close>. The argument is converted to \<^verbatim>\<open>Int32\<close> first. The result is
  the handle and the state, which the call leaves as it is.
\<close>

definition get_particle :: "psim \<Rightarrow> int \<Rightarrow> (error + handle) \<times> psim" where
  "get_particle sim id' =
     (let id32 = to_int32 id';
          data = da_data (ps_array sim);
          idx = searchsorted (map pid data) id32
      in if int idx < da_size (ps_array sim) \<and> pid (data ! idx) = id32
         then (Inr (InStore idx), sim)
         else (Inl ValueError, sim))"

text \<open>
  \<^verbatim>\<open>get_neighbour_particles\<close>. The tree keeps a view of the positions of the array, so
  a search reads the positions as they are when it runs. The result is the neighbours
  \<^verbatim>\<open>(squared_distance, index)\<close> and the state with the cached tree.
\<close>

definition get_neighbour_particles ::
  "nat \<Rightarrow> psim \<Rightarrow> point \<Rightarrow> int option \<Rightarrow> real option \<Rightarrow> bool \<Rightarrow>
   (error + neighbour list \<times> psim) option" where
  "get_neighbour_particles fuel sim p count radius do_sort =
     (case (case ps_kd_tree sim of
              None \<Rightarrow> KDTree_init fuel (map position (da_data (ps_array sim))) 128
            | Some tree \<Rightarrow> Some (Inr tree)) of
        None \<Rightarrow> None
      | Some (Inl e) \<Rightarrow> Some (Inl e)
      | Some (Inr tree) \<Rightarrow>
          (case search fuel (tree\<lparr>kd_data := map position (da_data (ps_array sim))\<rparr>)
                  p count radius do_sort of
             None \<Rightarrow> None
           | Some (Inl e) \<Rightarrow> Some (Inl e)
           | Some (Inr neighbours) \<Rightarrow> Some (Inr (neighbours, sim\<lparr>ps_kd_tree := Some tree\<rparr>))))"

text \<open>\<^verbatim>\<open>_solve\<close>, for one particle, and \<^verbatim>\<open>particles['force'] = 0\<close>.\<close>

definition solve1 :: "real \<Rightarrow> particle \<Rightarrow> particle" where
  "solve1 time_step p =
     (let v = (fst (velocity p) + fst (force p) * time_step / mass p,
               snd (velocity p) + snd (force p) * time_step / mass p)
      in p\<lparr>velocity := v,
           position := (fst (position p) + fst v * time_step,
                        snd (position p) + snd v * time_step)\<rparr>)"

definition solve :: "particle list \<Rightarrow> real \<Rightarrow> particle list" where
  "solve particles time_step = map (solve1 time_step) particles"

definition zero_force :: "particle list \<Rightarrow> particle list" where
  "zero_force particles = map (\<lambda>p. p\<lparr>force := (0, 0)\<rparr>) particles"

text \<open>
  \<^verbatim>\<open>particles = self._array.data\<close> is a view of the storage: what is done to it is done
  to the first slots of the storage.
\<close>

definition da_write :: "'a dynamic_array \<Rightarrow> 'a list \<Rightarrow> 'a dynamic_array" where
  "da_write a xs = a\<lparr>da_array := xs @ drop (length xs) (da_array a)\<rparr>"

definition run_callback :: "(nat \<Rightarrow> particle) \<Rightarrow> callback option \<Rightarrow> psim \<Rightarrow> error + psim" where
  "run_callback junk cb sim =
     (case cb of None \<Rightarrow> Inr sim | Some f \<Rightarrow> bind_err (f sim) (consolidate junk))"

definition step :: "(nat \<Rightarrow> particle) \<Rightarrow> callback option \<Rightarrow> callback option \<Rightarrow> psim \<Rightarrow> error + psim" where
  "step junk presolve_callback postsolve_callback sim =
     (let sim1 = sim\<lparr>ps_time := ps_time sim + ps_time_step sim\<rparr>
      in bind_err (run_callback junk presolve_callback sim1) (\<lambda>sim2.
           let particles = da_data (ps_array sim2);
               sim3 = sim2\<lparr>ps_array :=
                        da_write (ps_array sim2) (zero_force (solve particles (ps_time_step sim2)))\<rparr>
           in run_callback junk postsolve_callback sim3))"

section \<open>\<^verbatim>\<open>hienoi/application.py\<close>: the simulation worker\<close>

text \<open>
  The messages of the pipeline, by their type tag. Only the fields the worker reads or
  writes are kept: the time of \<^verbatim>\<open>_MESSAGE_SIM_UPDATE\<close> and the callbacks of
  \<^verbatim>\<open>_MESSAGE_RUN_CALLBACKS\<close>, each callback already applied to its own arguments.
\<close>

datatype message =
    MESSAGE_ERROR
  | MESSAGE_STOP
  | MESSAGE_QUIT
  | MESSAGE_REQUEST_SIM_UPDATE
  | MESSAGE_SIM_UPDATE real
  | MESSAGE_RUN_CALLBACKS "callback list"

text \<open>
  What goes down the pipe \<^verbatim>\<open>to_gui\<close>: messages, and buffers of the rendering attributes
  (position, size, color) of the particles.
\<close>

datatype sent = Message message | Buffer "(point \<times> real \<times> real \<times> real \<times> real \<times> real) list"

text \<open>
  The local variables of \<^verbatim>\<open>_particle_simulation_process\<close>, with the contents of the pipe
  \<^verbatim>\<open>to_gui\<close> so far and the messages received from \<^verbatim>\<open>from_gui\<close> so far.
\<close>

record worker =
  w_sim :: psim
  w_callbacks :: "callback list option"
  w_step :: bool
  w_send :: bool
  w_to_gui :: "sent list"
  w_from_gui :: "message list"

definition initial_worker :: "psim \<Rightarrow> worker" where
  "initial_worker sim =
     \<lparr>w_sim = sim, w_callbacks = None, w_step = True, w_send = False,
      w_to_gui = [], w_from_gui = []\<rparr>"

text \<open>\<^verbatim>\<open>_run_callbacks(obj, callbacks)\<close>: the callbacks in order, on the same object.\<close>

fun run_callbacks :: "callback list \<Rightarrow> psim \<Rightarrow> error + psim" where
  "run_callbacks [] sim = Inr sim"
| "run_callbacks (cb # cbs) sim = bind_err (cb sim) (run_callbacks cbs)"

text \<open>
  The inner loop, which empties \<^verbatim>\<open>from_gui\<close>: the argument is the list of the messages
  that \<^verbatim>\<open>_receive_message\<close> returns before it returns \<^verbatim>\<open>None\<close>. A message of any other
  type is dropped.
\<close>

fun drain :: "message list \<Rightarrow> worker \<Rightarrow> worker" where
  "drain [] w = w"
| "drain (m # ms) w =
     drain ms
       ((case m of
           MESSAGE_REQUEST_SIM_UPDATE \<Rightarrow> w\<lparr>w_send := True\<rparr>
         | MESSAGE_RUN_CALLBACKS callbacks \<Rightarrow> w\<lparr>w_callbacks := Some callbacks\<rparr>
         | _ \<Rightarrow> w)\<lparr>w_from_gui := w_from_gui w @ [m]\<rparr>)"

text \<open>
  \<^verbatim>\<open>particles.copy_from(sim.particles.data)\<close> followed by \<^verbatim>\<open>_array_to_buffer(particles)\<close>:
  the fields of \<^verbatim>\<open>PARTICLE_NANI\<close> of every particle of the store.
\<close>

definition snapshot :: "psim \<Rightarrow> (point \<times> real \<times> real \<times> real \<times> real \<times> real) list" where
  "snapshot sim = map (\<lambda>p. (position p, psize p, color p)) (da_data (ps_array sim))"

text \<open>The \<^verbatim>\<open>if step:\<close> block of an iteration.\<close>

definition step_block ::
  "(nat \<Rightarrow> particle) \<Rightarrow> callback option \<Rightarrow> callback option \<Rightarrow> worker \<Rightarrow> error + worker" where
  "step_block junk presolve_callback postsolve_callback w =
     (if w_step w then
        bind_err
          (case w_callbacks w of
             None \<Rightarrow> Inr w
           | Some callbacks \<Rightarrow>
               bind_err (run_callbacks callbacks (w_sim w)) (\<lambda>sim.
                 bind_err (consolidate junk sim) (\<lambda>sim'.
                   Inr (w\<lparr>w_sim := sim', w_callbacks := None\<rparr>))))
          (\<lambda>w'. bind_err (step junk presolve_callback postsolve_callback (w_sim w')) (\<lambda>sim.
                   Inr (w'\<lparr>w_sim := sim, w_step := False\<rparr>)))
      else Inr w)"

text \<open>The \<^verbatim>\<open>if send:\<close> block of an iteration.\<close>

definition send_block :: "worker \<Rightarrow> worker" where
  "send_block w =
     (if w_send w then
        w\<lparr>w_to_gui := w_to_gui w @ [Message (MESSAGE_SIM_UPDATE (ps_time (w_sim w))),
                                     Buffer (snapshot (w_sim w))],
          w_step := True, w_send := False\<rparr>
      else w)"

text \<open>
  One iteration of the outer loop. Its input is what the two channels hold when they are
  read: the message of \<^verbatim>\<open>downwards\<close>, if any, and the messages of \<^verbatim>\<open>from_gui\<close>. It goes
  on to the next iteration, leaves the loop on \<^verbatim>\<open>_MESSAGE_STOP\<close>, or ends with the
  exception of a callback, of the consolidation or of the step; then the worker returned
  is the one after the messages were read, of which only the two channels matter.
\<close>

datatype ending = Running | Stopped | Raised error

definition iteration ::
  "(nat \<Rightarrow> particle) \<Rightarrow> callback option \<Rightarrow> callback option \<Rightarrow>
   message option \<times> message list \<Rightarrow> worker \<Rightarrow> ending \<times> worker" where
  "iteration junk presolve_callback postsolve_callback input w =
     (case fst input of
        Some MESSAGE_STOP \<Rightarrow> (Stopped, w)
      | _ \<Rightarrow>
          (let w1 = drain (snd input) w
           in case step_block junk presolve_callback postsolve_callback w1 of
                Inl e \<Rightarrow> (Raised e, w1)
              | Inr w2 \<Rightarrow> (Running, send_block w2)))"

text \<open>
  The outer loop \<^verbatim>\<open>while True\<close>, run on a finite schedule of inputs, one per iteration:
  the executions of the worker are the runs on all schedules.
\<close>

fun worker_loop ::
  "(nat \<Rightarrow> particle) \<Rightarrow> callback option \<Rightarrow> callback option \<Rightarrow>
   (message option \<times> message list) list \<Rightarrow> worker \<Rightarrow> ending \<times> worker" where
  "worker_loop junk presolve_callback postsolve_callback [] w = (Running, w)"
| "worker_loop junk presolve_callback postsolve_callback (input # inputs) w =
     (case iteration junk presolve_callback postsolve_callback input w of
        (Running, w') \<Rightarrow> worker_loop junk presolve_callback postsolve_callback inputs w'
      | (ending, w') \<Rightarrow> (ending, w'))"

section \<open>Properties of the dynamic array\<close>

lemma bind_err_Inr [simp]: "bind_err (Inr x) f = f x"
  by (simp add: bind_err_def)

lemma bind_err_Inl [simp]: "bind_err (Inl e) f = Inl e"
  by (simp add: bind_err_def)

lemma bind_err_eq_Inr:
  "bind_err m f = Inr y \<longleftrightarrow> (\<exists>x. m = Inr x \<and> f x = Inr y)"
  by (cases m) simp_all

lemma np_empty_Inr: "0 \<le> n \<Longrightarrow> np_empty junk n = Inr (map junk [0..<nat n])"
  by (simp add: np_empty_def)

lemma floor_max_of_int: "\<lfloor>max (a::rat) (of_int b)\<rfloor> = max \<lfloor>a\<rfloor> b"
proof (cases "a \<le> of_int b")
  case True
  then have "\<lfloor>a\<rfloor> \<le> b"
    by (simp add: floor_le_iff)
  with True show ?thesis
    by (simp add: max_def)
next
  case False
  then have "b \<le> \<lfloor>a\<rfloor>"
    by (simp add: le_floor_iff)
  with False show ?thesis
    by (simp add: max_def)
qed

lemma grow_capacity_eq: "0 \<le> len \<Longrightarrow> grow_capacity requested len = max requested (max (3 * len div 2) 4)"
proof -
  assume len: "0 \<le> len"
  have c: "\<lceil>1 / (GROW_FACTOR - 1)\<rceil> * 2 = (4::int)"
    by (simp add: GROW_FACTOR_def)
  have "of_int len * GROW_FACTOR = (of_int (3 * len) :: rat) / 2"
    by (simp add: GROW_FACTOR_def)
  then have f: "\<lfloor>of_int len * GROW_FACTOR\<rfloor> = 3 * len div 2"
    by (metis floor_divide_of_int_eq of_int_numeral)
  have "\<lfloor>max (of_int len * GROW_FACTOR) (of_int (4::int))\<rfloor>
        = max \<lfloor>of_int len * GROW_FACTOR\<rfloor> (4::int)"
    by (rule floor_max_of_int)
  with c f show ?thesis
    by (simp add: grow_capacity_def)
qed

lemma grow_copy:
  assumes "int (length (da_array a)) < requested"
    and "0 \<le> da_size a" and "da_size a \<le> int (length (da_array a))"
  shows "grow junk requested True a =
     Inr (a\<lparr>da_array := py_upto (da_size a) (da_array a)
        @ drop (nat (da_size a)) (map junk [0..<nat (grow_capacity requested (int (length (da_array a))))])\<rparr>)"
proof -
  let ?cap = "grow_capacity requested (int (length (da_array a)))"
  have cap: "requested \<le> ?cap"
    by (simp add: grow_capacity_def)
  with assms have pos: "0 \<le> ?cap" and le: "nat (da_size a) \<le> nat ?cap"
    by linarith+
  have len_src: "length (py_upto (da_size a) (da_array a)) = nat (da_size a)"
    using assms by (simp add: py_upto_def)
  have len_tgt: "length (py_upto (da_size a) (map junk [0..<nat ?cap])) = nat (da_size a)"
    using assms le by (simp add: py_upto_def)
  have "np_assign_upto (map junk [0..<nat ?cap]) (da_size a) (py_upto (da_size a) (da_array a))
      = Inr (py_upto (da_size a) (da_array a) @ drop (nat (da_size a)) (map junk [0..<nat ?cap]))"
    unfolding np_assign_upto_def Let_def len_src len_tgt by simp
  then show ?thesis
    using assms(1) pos by (simp add: grow_def np_empty_Inr)
qed

lemma grow_no_copy:
  assumes "int (length (da_array a)) < requested"
  shows "grow junk requested False a =
     Inr (a\<lparr>da_array := map junk [0..<nat (grow_capacity requested (int (length (da_array a))))],
            da_size := 0\<rparr>)"
proof -
  have "requested \<le> grow_capacity requested (int (length (da_array a)))"
    by (simp add: grow_capacity_def)
  with assms have "0 \<le> grow_capacity requested (int (length (da_array a)))"
    by linarith
  with assms show ?thesis
    by (simp add: grow_def np_empty_Inr)
qed

text \<open>
  C5. Growth law of \<^verbatim>\<open>DynamicArray.grow\<close>. For an array whose logical size lies between
  zero and its capacity, and a request above the capacity: the call succeeds, the new
  capacity is \<open>max requested (max \<lfloor>capacity * 1.5\<rfloor> 4)\<close> (4 being the minimum step
  \<^verbatim>\<open>ceil(1 / (1.5 - 1)) * 2\<close>), hence at least the request and at least the previous
  capacity times the growth factor rounded down; with \<^verbatim>\<open>copy=True\<close> the logical size and
  the data (the first \<open>len\<close> elements) are the same as before; with \<^verbatim>\<open>copy=False\<close> the
  logical size becomes \<open>0\<close>.
\<close>

theorem grow_law:
  assumes "da_capacity a < requested"
    and "0 \<le> da_size a" and "da_size a \<le> da_capacity a"
  shows "\<exists>a1 a2.
      grow junk requested True a = Inr a1 \<and>
      da_capacity a1 = max requested (max (3 * da_capacity a div 2) 4) \<and>
      requested \<le> da_capacity a1 \<and> 3 * da_capacity a div 2 \<le> da_capacity a1 \<and>
      da_size a1 = da_size a \<and> da_data a1 = da_data a \<and>
      grow junk requested False a = Inr a2 \<and>
      da_capacity a2 = max requested (max (3 * da_capacity a div 2) 4) \<and>
      da_size a2 = 0 \<and> da_data a2 = []"
proof -
  let ?len = "int (length (da_array a))"
  let ?cap = "grow_capacity requested ?len"
  have a: "?len < requested" "0 \<le> da_size a" "da_size a \<le> ?len"
    using assms by (simp_all add: da_capacity_def)
  have capeq: "?cap = max requested (max (3 * ?len div 2) 4)"
    by (rule grow_capacity_eq) simp
  then have big: "da_size a \<le> ?cap" "0 \<le> ?cap"
    using a by linarith+
  have src: "length (py_upto (da_size a) (da_array a)) = nat (da_size a)"
    using a by (simp add: py_upto_def)
  let ?a1 = "a\<lparr>da_array := py_upto (da_size a) (da_array a)
        @ drop (nat (da_size a)) (map junk [0..<nat ?cap])\<rparr>"
  let ?a2 = "a\<lparr>da_array := map junk [0..<nat ?cap], da_size := 0\<rparr>"
  have g1: "grow junk requested True a = Inr ?a1"
    using a by (rule grow_copy)
  have g2: "grow junk requested False a = Inr ?a2"
    using a(1) by (rule grow_no_copy)
  have c1: "da_capacity ?a1 = ?cap"
    using big a src by (simp add: da_capacity_def)
  have c2: "da_capacity ?a2 = ?cap"
    using big by (simp add: da_capacity_def)
  have d1: "da_data ?a1 = da_data a"
    using a src by (simp add: da_data_def py_upto_def)
  have d2: "da_data ?a2 = []"
    by (simp add: da_data_def py_upto_def)
  have m: "requested \<le> ?cap" "3 * ?len div 2 \<le> ?cap"
    using capeq by linarith+
  have e: "?cap = max requested (max (3 * da_capacity a div 2) 4)"
    using capeq by (simp only: da_capacity_def)
  have e1: "da_capacity ?a1 = max requested (max (3 * da_capacity a div 2) 4)"
    using c1 e by (rule trans)
  have e2: "da_capacity ?a2 = max requested (max (3 * da_capacity a div 2) 4)"
    using c2 e by (rule trans)
  have m1: "requested \<le> da_capacity ?a1" "3 * da_capacity a div 2 \<le> da_capacity ?a1"
    using m unfolding c1 by (simp_all only: da_capacity_def)
  have s1: "da_size ?a1 = da_size a" and s2: "da_size ?a2 = 0"
    by simp_all
  show ?thesis
    using g1 e1 m1 s1 d1 g2 e2 s2 d2 by blast
qed

theorem grow_law_witness:
  "\<exists>a1 a2.
      grow (\<lambda>_. 0) 8 True \<lparr>da_array = [0, 1, 4, 9 :: int], da_size = 4\<rparr> = Inr a1 \<and>
      da_capacity a1 = 8 \<and> da_size a1 = 4 \<and> da_data a1 = [0, 1, 4, 9] \<and>
      grow (\<lambda>_. 0) 8 False \<lparr>da_array = [0, 1, 4, 9 :: int], da_size = 4\<rparr> = Inr a2 \<and>
      da_capacity a2 = 8 \<and> da_size a2 = 0 \<and> da_data a2 = []"
proof -
  let ?a = "\<lparr>da_array = [0, 1, 4, 9 :: int], da_size = 4\<rparr>"
  have h: "da_capacity ?a < 8" "0 \<le> da_size ?a" "da_size ?a \<le> da_capacity ?a"
    by (simp_all add: da_capacity_def)
  have d: "da_data ?a = [0, 1, 4, 9]" "da_capacity ?a = 4"
    by (simp_all add: da_data_def py_upto_def da_capacity_def)
  from grow_law [OF h, of "\<lambda>_. 0"] show ?thesis
    unfolding d by auto
qed

text \<open>
  C7 as the code has it. Neither \<^verbatim>\<open>grow\<close> nor \<^verbatim>\<open>resize\<close> looks at the sign of the
  request: a negative request is never above the capacity, so \<^verbatim>\<open>grow\<close> returns at once,
  without an error and without touching the array, and \<^verbatim>\<open>resize\<close> then stores the
  negative request as the logical size. Construction with capacity zero succeeds.
\<close>

theorem negative_request_not_rejected:
  assumes "requested < 0"
  shows "grow junk requested copy a = Inr a \<and>
         resize junk requested copy a = Inr (a\<lparr>da_size := requested\<rparr>) \<and>
         DynamicArray_init junk 0 = Inr \<lparr>da_array = [], da_size = 0\<rparr>"
proof -
  have "requested \<le> int (length (da_array a))"
    using assms by linarith
  then have "grow junk requested copy a = Inr a"
    by (simp add: grow_def)
  then show ?thesis
    by (simp add: resize_def DynamicArray_init_def np_empty_def)
qed

theorem negative_request_not_rejected_witness:
  "grow (\<lambda>_. 0) (- 1) True \<lparr>da_array = [0, 1, 4, 9 :: int], da_size = 4\<rparr>
     = Inr \<lparr>da_array = [0, 1, 4, 9], da_size = 4\<rparr> \<and>
   resize (\<lambda>_. 0) (- 1) True \<lparr>da_array = [0, 1, 4, 9 :: int], da_size = 4\<rparr>
     = Inr \<lparr>da_array = [0, 1, 4, 9], da_size = - 1\<rparr>"
  using negative_request_not_rejected
    [of "- 1" "\<lambda>_. 0" True "\<lparr>da_array = [0, 1, 4, 9 :: int], da_size = 4\<rparr>"]
  by simp

theorem negative_request_counterexample:
  "\<not> (\<exists>e. resize (\<lambda>_. 0) (- 3) True \<lparr>da_array = [0, 1, 4, 9 :: int], da_size = 4\<rparr> = Inl e) \<and>
   \<not> (\<exists>e. grow (\<lambda>_. 0) (- 3) True \<lparr>da_array = [0, 1, 4, 9 :: int], da_size = 4\<rparr> = Inl e) \<and>
   resize (\<lambda>_. 0) (- 3) True \<lparr>da_array = [0, 1, 4, 9 :: int], da_size = 4\<rparr>
     = Inr \<lparr>da_array = [0, 1, 4, 9], da_size = - 3\<rparr>"
  by (simp add: resize_def grow_def)

section \<open>Properties of the ordered buffer\<close>

definition slice :: "'a list \<Rightarrow> nat \<Rightarrow> nat \<Rightarrow> 'a list" where
  "slice xs a b = take (b - a) (drop a xs)"

definition offset :: "nat \<Rightarrow> nat \<times> nat \<Rightarrow> nat" where
  "offset cap p = fst p * cap + snd p"

fun content_from :: "'a list \<Rightarrow> nat \<Rightarrow> nat \<Rightarrow> ((nat \<times> nat) \<times> 'a list) list \<Rightarrow> 'a list" where
  "content_from flat cap off [] = []"
| "content_from flat cap off ((p, data) # rest) =
     slice flat off (offset cap p) @ data @ content_from flat cap (offset cap p) rest"

lemma slice_append: "a \<le> b \<Longrightarrow> b \<le> c \<Longrightarrow> slice xs a b @ slice xs b c = slice xs a c"
proof -
  assume ab: "a \<le> b" and bc: "b \<le> c"
  have "take (b - a) (drop a xs) @ take (c - b) (drop (b - a) (drop a xs))
        = take ((b - a) + (c - b)) (drop a xs)"
    by (simp only: take_add)
  moreover have "drop (b - a) (drop a xs) = drop b xs"
    using ab by simp
  moreover have "(b - a) + (c - b) = c - a"
    using ab bc by simp
  ultimately show ?thesis
    by (simp add: slice_def)
qed

lemma slice_same [simp]: "slice xs a a = []"
  by (simp add: slice_def)

lemma drop_concat_uniform:
  "\<forall>b\<in>set bs. length b = cap \<Longrightarrow> drop (i * cap) (concat bs) = concat (drop i bs)"
proof (induction bs arbitrary: i)
  case Nil
  then show ?case by simp
next
  case (Cons b bs)
  show ?case
  proof (cases i)
    case 0
    then show ?thesis by simp
  next
    case (Suc k)
    with Cons show ?thesis by simp
  qed
qed

lemma bucket_slice:
  assumes "\<forall>b\<in>set bs. length b = cap" and "i < length bs" and "j + n \<le> cap"
  shows "take n (drop j (bs ! i)) = slice (concat bs) (i * cap + j) (i * cap + j + n)"
proof -
  have len: "length (bs ! i) = cap"
    using assms by simp
  have "drop (i * cap + j) (concat bs) = drop j (drop (i * cap) (concat bs))"
    by (simp add: add.commute)
  also have "\<dots> = drop j (concat (drop i bs))"
    using assms(1) by (simp add: drop_concat_uniform)
  also have "drop i bs = bs ! i # drop (Suc i) bs"
    using assms(2) by (simp add: Cons_nth_drop_Suc)
  finally have "drop (i * cap + j) (concat bs) = drop j (bs ! i) @ concat (drop (Suc i) bs)"
    using len assms(3) by simp
  then show ?thesis
    using len assms(3) by (simp add: slice_def)
qed

lemma chunks_while_content:
  assumes "\<forall>b\<in>set buckets. length b = cap" and "m \<le> length buckets" and "j = 0 \<or> (j \<le> cap \<and> i < m) \<or> i \<ge> m"
  shows "\<exists>cs. chunks_while buckets m (out, i, j) = Inr (out @ cs, if i < m then m else i, if i < m then 0 else j) \<and>
          concat cs = (if i < m then slice (concat buckets) (i * cap + j) (m * cap) else [])"
  using assms
proof (induction buckets m "(out, i, j)" arbitrary: out i j rule: chunks_while.induct)
  case (1 buckets m out i j)
  show ?case
  proof (cases "i < m")
    case False
    then show ?thesis by simp
  next
    case True
    then have il: "i < length buckets"
      using "1.prems" by simp
    have jc: "j \<le> cap"
      using "1.prems" True by auto
    from "1.hyps"[OF True il] "1.prems"
    obtain cs where cs: "chunks_while buckets m (out @ [drop j (buckets ! i)], i + 1, 0)
          = Inr ((out @ [drop j (buckets ! i)]) @ cs, if i + 1 < m then m else i + 1, if i + 1 < m then 0 else 0)"
        "concat cs = (if i + 1 < m then slice (concat buckets) ((i + 1) * cap + 0) (m * cap) else [])"
      by blast
    have d: "drop j (buckets ! i) = slice (concat buckets) (i * cap + j) ((i + 1) * cap)"
    proof -
      have t: "take (cap - j) (drop j (buckets ! i)) = slice (concat buckets) (i * cap + j) (i * cap + j + (cap - j))"
        using "1.prems"(1) il jc by (intro bucket_slice) auto
      have "length (buckets ! i) = cap"
        using "1.prems"(1) il by simp
      then have "take (cap - j) (drop j (buckets ! i)) = drop j (buckets ! i)"
        by simp
      moreover have "i * cap + j + (cap - j) = (i + 1) * cap"
        using jc by simp
      ultimately show ?thesis
        using t by simp
    qed
    have fin: "(if i + 1 < m then m else i + 1) = m"
      using True by simp
    have "i + 1 \<le> m"
      using True by simp
    then have le1: "(i + 1) * cap \<le> m * cap"
      by (rule mult_le_mono1)
    have le2: "i * cap + j \<le> (i + 1) * cap"
      using jc by simp
    note le = le1 le2
    have "concat ([drop j (buckets ! i)] @ cs) = slice (concat buckets) (i * cap + j) (m * cap)"
    proof (cases "i + 1 < m")
      case True
      then show ?thesis
        using cs(2) d slice_append[OF le(2) le(1)] by simp
    next
      case False
      then have "i + 1 = m" using \<open>i < m\<close> by simp
      then show ?thesis
        using cs(2) d by auto
    qed
    then show ?thesis
      using True il cs(1) fin by (intro exI[of _ "[drop j (buckets ! i)] @ cs"]) simp
  qed
qed


lemma offset_le_cases:
  assumes "offset cap (i, j) \<le> offset cap (m, n)" and "n < cap"
  shows "i < m \<or> (i = m \<and> j \<le> n)"
proof (rule ccontr)
  assume "\<not> (i < m \<or> (i = m \<and> j \<le> n))"
  then have c: "m < i \<or> (i = m \<and> n < j)"
    by auto
  show False
  proof (cases "m < i")
    case True
    then have "m + 1 \<le> i" by simp
    then have "(m + 1) * cap \<le> i * cap"
      by (rule mult_le_mono1)
    with assms show False
      by (simp add: offset_def)
  next
    case False
    with c assms show False
      by (simp add: offset_def)
  qed
qed

lemma offset_in_range:
  assumes "offset cap (m, n) \<le> cap * length buckets"
  shows "m \<le> length buckets \<or> cap = 0" and "0 < n \<Longrightarrow> m < length buckets"
proof -
  have le: "m * cap + n \<le> length buckets * cap"
    using assms by (simp add: offset_def mult.commute)
  show "m \<le> length buckets \<or> cap = 0"
  proof (rule ccontr)
    assume "\<not> (m \<le> length buckets \<or> cap = 0)"
    then have "length buckets + 1 \<le> m" "0 < cap" by simp_all
    then have "(length buckets + 1) * cap \<le> m * cap"
      by (intro mult_le_mono1)
    with le \<open>0 < cap\<close> show False by simp
  qed
  show "m < length buckets" if "0 < n"
  proof (rule ccontr)
    assume "\<not> m < length buckets"
    then have "length buckets * cap \<le> m * cap"
      by (intro mult_le_mono1) simp
    with le that show False by simp
  qed
qed

lemma chunks_for_content:
  assumes "\<forall>b\<in>set buckets. length b = cap"
    and "j < cap"
    and "sorted (offset cap (i, j) # map (\<lambda>bunch. offset cap (fst bunch)) bunchs)"
    and "\<forall>bunch\<in>set bunchs. snd (fst bunch) < cap \<and> offset cap (fst bunch) \<le> cap * length buckets"
  shows "\<exists>res. chunks_for buckets bunchs (out, i, j) = Inr res \<and>
           concat res = concat out @ content_from (concat buckets) cap (offset cap (i, j)) bunchs"
  using assms(2-)
proof (induction bunchs arbitrary: out i j)
  case Nil
  then show ?case by simp
next
  case (Cons bunch bunchs)
  obtain m n data where bunch: "bunch = ((m, n), data)"
    by (metis surj_pair)
  let ?flat = "concat buckets"
  have n: "n < cap" and rng: "offset cap (m, n) \<le> cap * length buckets"
    using Cons.prems(3) bunch by simp_all
  have le: "offset cap (i, j) \<le> offset cap (m, n)"
    using Cons.prems(2) bunch by simp
  have pos: "i < m \<or> (i = m \<and> j \<le> n)"
    using le n by (rule offset_le_cases)
  have mlen: "m \<le> length buckets"
    using offset_in_range(1)[OF rng] n by auto
  have pre: "j = 0 \<or> (j \<le> cap \<and> i < m) \<or> i \<ge> m"
    using pos Cons.prems(1) by auto
  obtain cs where cs:
    "chunks_while buckets m (out, i, j) = Inr (out @ cs, if i < m then m else i, if i < m then 0 else j)"
    "concat cs = (if i < m then slice ?flat (i * cap + j) (m * cap) else [])"
    using chunks_while_content[OF assms(1) mlen pre] by blast
  define j1 where "j1 = (if i < m then 0 else j)"
  have i1: "(if i < m then m else i) = m"
    using pos by auto
  have j1n: "j1 \<le> n"
    using pos by (auto simp: j1_def)
  define out2 where "out2 = (if j1 < n then out @ cs @ [take (n - j1) (drop j1 (buckets ! m))] else out @ cs)"
  have step2: "(if j1 < n then
            (if m < length buckets
             then Inr ((out @ cs) @ [take (n - j1) (drop j1 (buckets ! m))])
             else Inl IndexError)
          else Inr (out @ cs)) = Inr out2"
  proof (cases "j1 < n")
    case True
    then have "0 < n" by simp
    then have "m < length buckets"
      by (rule offset_in_range(2)[OF rng])
    with True show ?thesis by (simp add: out2_def)
  next
    case False
    then show ?thesis by (simp add: out2_def)
  qed
  have region: "concat out2 = concat out @ slice ?flat (offset cap (i, j)) (offset cap (m, n))"
  proof -
    have tail: "(if j1 < n then take (n - j1) (drop j1 (buckets ! m)) else [])
          = slice ?flat (m * cap + j1) (m * cap + n)"
    proof (cases "j1 < n")
      case True
      then have "0 < n" by simp
      then have ml: "m < length buckets"
        by (rule offset_in_range(2)[OF rng])
      have "j1 + (n - j1) \<le> cap"
        using True n by simp
      from bucket_slice[OF assms(1) ml this] True show ?thesis
        by simp
    next
      case False
      with j1n have "j1 = n" by simp
      then show ?thesis by simp
    qed
    have "concat cs @ slice ?flat (m * cap + j1) (m * cap + n)
        = slice ?flat (offset cap (i, j)) (offset cap (m, n))"
    proof (cases "i < m")
      case True
      then have j10: "j1 = 0" by (simp add: j1_def)
      have "i + 1 \<le> m" using True by simp
      then have "(i + 1) * cap \<le> m * cap"
        by (rule mult_le_mono1)
      then have a: "i * cap + j \<le> m * cap"
        using Cons.prems(1) by simp
      have b: "m * cap \<le> m * cap + n" by simp
      show ?thesis
        using True cs(2) j10 slice_append[OF a b] by (simp add: offset_def)
    next
      case False
      with pos have "i = m" by simp
      with False show ?thesis
        using cs(2) by (simp add: j1_def offset_def)
    qed
    moreover have "concat out2 = concat out @ concat cs
        @ (if j1 < n then take (n - j1) (drop j1 (buckets ! m)) else [])"
      by (simp add: out2_def)
    ultimately show ?thesis
      using tail by simp
  qed
  have sorted': "sorted (offset cap (m, n) # map (\<lambda>bunch. offset cap (fst bunch)) bunchs)"
    using Cons.prems(2) bunch by simp
  have rest: "\<forall>bunch\<in>set bunchs. snd (fst bunch) < cap \<and> offset cap (fst bunch) \<le> cap * length buckets"
    using Cons.prems(3) by simp
  obtain res where res:
    "chunks_for buckets bunchs (if length data \<noteq> 0 then out2 @ [data] else out2, m, n) = Inr res"
    "concat res = concat (if length data \<noteq> 0 then out2 @ [data] else out2)
        @ content_from ?flat cap (offset cap (m, n)) bunchs"
    using Cons.IH[OF n sorted' rest] by blast
  have w: "chunks_while buckets m (out, i, j) = Inr (out @ cs, m, j1)"
    using cs(1) by (simp only: i1 j1_def)
  have "chunks_for buckets (bunch # bunchs) (out, i, j) = Inr res"
    by (simp only: bunch chunks_for.simps w bind_err_Inr prod.case step2 res(1))
  moreover have "concat (if length data \<noteq> 0 then out2 @ [data] else out2) = concat out2 @ data"
    by simp
  ultimately show ?case
    using res(2) region by (simp add: bunch)
qed


definition ob_inv :: "'a ordered_buffer \<Rightarrow> bool" where
  "ob_inv b \<longleftrightarrow>
     0 < ob_bucket_capacity b \<and>
     list_all (\<lambda>bucket. length bucket = ob_bucket_capacity b) (ob_buckets b) \<and>
     snd (ob_pos b) < ob_bucket_capacity b \<and>
     offset (ob_bucket_capacity b) (ob_pos b) \<le> ob_bucket_capacity b * length (ob_buckets b) \<and>
     sorted (map (\<lambda>bunch. offset (ob_bucket_capacity b) (fst bunch)) (ob_bunchs b)
             @ [offset (ob_bucket_capacity b) (ob_pos b)]) \<and>
     list_all (\<lambda>bunch. snd (fst bunch) < ob_bucket_capacity b) (ob_bunchs b)"

definition ob_content :: "'a ordered_buffer \<Rightarrow> 'a list" where
  "ob_content b =
     content_from (concat (ob_buckets b)) (ob_bucket_capacity b) 0 (ob_bunchs b @ [(ob_pos b, [])])"

lemma sorted_snoc_last_le:
  "sorted (xs @ [k]) \<Longrightarrow> x \<in> set xs \<Longrightarrow> x \<le> (k::nat)"
  by (simp add: sorted_append)

lemma sorted_snoc_last0_le:
  assumes "sorted (xs @ [k::nat])"
  shows "last (0 # xs) \<le> k"
proof (cases "xs = []")
  case True
  then show ?thesis by simp
next
  case False
  then have "last xs \<in> set xs" by simp
  then have "last xs \<le> k"
    using assms by (rule sorted_snoc_last_le[rotated])
  with False show ?thesis by simp
qed

lemma ob_chunks_content:
  assumes "ob_inv b"
  shows "\<exists>cs. ob_chunks b = Inr cs \<and> concat cs = ob_content b"
proof -
  let ?cap = "ob_bucket_capacity b"
  let ?bs = "ob_bunchs b @ [(ob_pos b, [])]"
  have u: "\<forall>bk\<in>set (ob_buckets b). length bk = ?cap"
    using assms by (simp add: ob_inv_def list_all_iff)
  have j: "0 < ?cap"
    using assms by (simp add: ob_inv_def)
  have srt: "sorted (map (\<lambda>bunch. offset ?cap (fst bunch)) (ob_bunchs b) @ [offset ?cap (ob_pos b)])"
    using assms by (simp add: ob_inv_def)
  then have s: "sorted (offset ?cap (0, 0) # map (\<lambda>bunch. offset ?cap (fst bunch)) ?bs)"
    by (simp add: offset_def)
  have top: "offset ?cap (ob_pos b) \<le> ?cap * length (ob_buckets b)"
    using assms by (simp add: ob_inv_def)
  have r: "\<forall>bunch\<in>set ?bs. snd (fst bunch) < ?cap \<and> offset ?cap (fst bunch) \<le> ?cap * length (ob_buckets b)"
  proof
    fix bunch assume "bunch \<in> set ?bs"
    then consider "bunch \<in> set (ob_bunchs b)" | "bunch = (ob_pos b, [])"
      by auto
    then show "snd (fst bunch) < ?cap \<and> offset ?cap (fst bunch) \<le> ?cap * length (ob_buckets b)"
    proof cases
      case 1
      then have "offset ?cap (fst bunch) \<le> offset ?cap (ob_pos b)"
        using sorted_snoc_last_le[OF srt] by simp
      moreover have "snd (fst bunch) < ?cap"
        using assms 1 by (simp add: ob_inv_def list_all_iff)
      ultimately show ?thesis using top by simp
    next
      case 2
      then show ?thesis using assms top by (simp add: ob_inv_def)
    qed
  qed
  from chunks_for_content[OF u j s r, of "[]"] show ?thesis
    by (simp add: ob_chunks_def ob_content_def offset_def)
qed

lemma content_from_snoc:
  "content_from flat cap off (bunchs @ [(p, d)]) =
     content_from flat cap off bunchs
     @ slice flat (last (off # map (\<lambda>bunch. offset cap (fst bunch)) bunchs)) (offset cap p) @ d"
  by (induction bunchs arbitrary: off) auto

lemma slice_take_cong:
  "take k xs = take k ys \<Longrightarrow> b \<le> k \<Longrightarrow> slice xs a b = slice ys a b"
proof -
  assume t: "take k xs = take k ys" and bk: "b \<le> k"
  have "slice xs a b = drop a (take b xs)"
    by (cases "a \<le> b") (simp_all add: slice_def drop_take)
  also have "take b xs = take b (take k xs)"
    using bk by (simp add: min_def)
  also have "\<dots> = take b (take k ys)"
    using t by simp
  also have "\<dots> = take b ys"
    using bk by (simp add: min_def)
  also have "drop a (take b ys) = slice ys a b"
    by (cases "a \<le> b") (simp_all add: slice_def drop_take)
  finally show ?thesis .
qed

lemma content_from_take_cong:
  assumes "take k xs = take k ys"
    and "sorted (off # map (\<lambda>bunch. offset cap (fst bunch)) bunchs @ [k])"
  shows "content_from xs cap off bunchs = content_from ys cap off bunchs"
  using assms(2)
proof (induction bunchs arbitrary: off)
  case Nil
  then show ?case by simp
next
  case (Cons bunch bunchs)
  obtain p d where bunch: "bunch = (p, d)" by (cases bunch)
  have "offset cap p \<le> k"
    using Cons.prems by (simp add: bunch)
  then have "slice xs off (offset cap p) = slice ys off (offset cap p)"
    using assms(1) by (intro slice_take_cong)
  moreover have "content_from xs cap (offset cap p) bunchs = content_from ys cap (offset cap p) bunchs"
    using Cons.prems by (intro Cons.IH) (simp add: bunch)
  ultimately show ?case by (simp add: bunch)
qed


lemma length_concat_uniform:
  "\<forall>b\<in>set bs. length b = cap \<Longrightarrow> length (concat bs) = length bs * cap"
  by (induction bs) simp_all

lemma concat_update_uniform:
  assumes "\<forall>b\<in>set bs. length b = cap" and "i < length bs" and "j + length data \<le> cap"
  shows "take (i * cap + j) (concat (bs[i := take j (bs ! i) @ data @ drop (j + length data) (bs ! i)]))
           = take (i * cap + j) (concat bs)"
    and "slice (concat (bs[i := take j (bs ! i) @ data @ drop (j + length data) (bs ! i)]))
           (i * cap + j) (i * cap + j + length data) = data"
proof -
  let ?bk = "bs ! i"
  let ?P = "concat (take i bs)"
  let ?R = "concat (drop (Suc i) bs)"
  have lbk: "length ?bk = cap"
    using assms by simp
  have "\<forall>b\<in>set (take i bs). length b = cap"
    using assms(1) by (meson in_set_takeD)
  then have "length ?P = length (take i bs) * cap"
    by (rule length_concat_uniform)
  then have lP: "length ?P = i * cap"
    using assms(2) by simp
  have new: "concat (bs[i := take j ?bk @ data @ drop (j + length data) ?bk])
      = (?P @ take j ?bk) @ data @ drop (j + length data) ?bk @ ?R"
    using assms(2) by (simp add: upd_conv_take_nth_drop)
  have "bs = take i bs @ ?bk # drop (Suc i) bs"
    using assms(2) by (simp add: id_take_nth_drop[symmetric])
  then have "concat bs = concat (take i bs @ ?bk # drop (Suc i) bs)"
    by simp
  then have old: "concat bs = (?P @ take j ?bk) @ drop j ?bk @ ?R"
    by simp
  have lpre: "length (?P @ take j ?bk) = i * cap + j"
    using lP lbk assms(3) by simp
  show "take (i * cap + j) (concat (bs[i := take j ?bk @ data @ drop (j + length data) ?bk]))
           = take (i * cap + j) (concat bs)"
    unfolding new using lpre old by (metis append_eq_conv_conj)
  have "drop (i * cap + j) (concat (bs[i := take j ?bk @ data @ drop (j + length data) ?bk]))
      = data @ drop (j + length data) ?bk @ ?R"
    unfolding new using lpre by (metis append_eq_conv_conj)
  then show "slice (concat (bs[i := take j ?bk @ data @ drop (j + length data) ?bk]))
           (i * cap + j) (i * cap + j + length data) = data"
    by (simp add: slice_def)
qed

lemma ob_push_bucket:
  assumes inv: "ob_inv b" and ne: "data \<noteq> []"
    and fits: "snd (ob_pos b) + length data \<le> ob_bucket_capacity b"
  shows "\<exists>b'. ob_push junk data (length data) b = Inr b' \<and> ob_inv b' \<and>
           ob_content b' = ob_content b @ data \<and> ob_bucket_capacity b' = ob_bucket_capacity b"
proof -
  let ?cap = "ob_bucket_capacity b"
  let ?i = "fst (ob_pos b)" and ?j = "snd (ob_pos b)"
  let ?sz = "length data"
  let ?K = "offset ?cap (ob_pos b)"
  define B where "B = (if ?i = length (ob_buckets b)
                then ob_buckets b @ [map junk [0..<?cap]] else ob_buckets b)"
  define bucket where "bucket = take ?j (B ! ?i) @ data @ drop (?j + ?sz) (B ! ?i)"
  define j' where "j' = (?j + ?sz) mod ?cap"
  define b' where "b' = b\<lparr>ob_buckets := B[?i := bucket], ob_pos := (if j' = 0 then ?i + 1 else ?i, j')\<rparr>"
  have cap: "0 < ?cap" and u: "\<forall>bk\<in>set (ob_buckets b). length bk = ?cap"
    and top: "?K \<le> ?cap * length (ob_buckets b)"
    and srt: "sorted (map (\<lambda>bunch. offset ?cap (fst bunch)) (ob_bunchs b) @ [?K])"
    and bn: "list_all (\<lambda>bunch. snd (fst bunch) < ?cap) (ob_bunchs b)"
    using inv by (simp_all add: ob_inv_def list_all_iff)
  have Koff: "?K = ?i * ?cap + ?j"
    by (simp add: offset_def)
  have ile: "?i \<le> length (ob_buckets b)"
    using offset_in_range(1)[of ?cap ?i ?j "ob_buckets b"] top cap by (simp add: offset_def)
  have j0: "?j = 0" if "?i = length (ob_buckets b)"
    using offset_in_range(2)[of ?cap ?i ?j "ob_buckets b"] top that by (auto simp: offset_def)
  have uB: "\<forall>bk\<in>set B. length bk = ?cap"
    using u by (auto simp: B_def)
  have iB: "?i < length B"
    using ile by (auto simp: B_def)
  have flatB: "take ?K (concat B) = take ?K (concat (ob_buckets b))"
  proof (cases "?i = length (ob_buckets b)")
    case True
    then have "?K = length (concat (ob_buckets b))"
      using j0 length_concat_uniform[OF u] by (simp add: Koff)
    then show ?thesis by (simp add: B_def True)
  next
    case False
    then show ?thesis by (simp add: B_def)
  qed
  have upd: "take ?K (concat (B[?i := bucket])) = take ?K (concat B)"
    "slice (concat (B[?i := bucket])) ?K (?K + ?sz) = data"
    unfolding Koff bucket_def using concat_update_uniform[OF uB iB fits] by simp_all
  have guard: "int ?cap - int ?j \<ge> int ?sz"
    using fits by simp
  have push: "ob_push junk data ?sz b = Inr b'"
    unfolding ob_push_def Let_def using guard iB
    by (simp add: B_def[symmetric] bucket_def[symmetric] j'_def[symmetric] b'_def)
  have sz: "0 < ?sz" using ne by simp
  have off': "offset ?cap (ob_pos b') = ?K + ?sz"
  proof (cases "?j + ?sz = ?cap")
    case True
    then have "j' = 0" by (simp add: j'_def)
    then show ?thesis using True by (simp add: b'_def offset_def)
  next
    case False
    then have "?j + ?sz < ?cap" using fits by simp
    then have "j' = ?j + ?sz" by (simp add: j'_def)
    then show ?thesis using sz by (simp add: b'_def offset_def)
  qed
  have lbucket: "length bucket = ?cap"
    using uB iB fits by (simp add: bucket_def)
  have uB': "\<forall>bk\<in>set (B[?i := bucket]). length bk = ?cap"
    using uB lbucket set_update_subset_insert[of B ?i bucket] by auto
  have "(?i + 1) * ?cap \<le> length B * ?cap"
    using iB by (intro mult_le_mono1) simp
  then have top': "?K + ?sz \<le> ?cap * length (B[?i := bucket])"
    using fits by (simp add: Koff mult.commute)
  have inv': "ob_inv b'"
    unfolding ob_inv_def
  proof (intro conjI)
    show "0 < ob_bucket_capacity b'" using cap by (simp add: b'_def)
    show "list_all (\<lambda>bucket. length bucket = ob_bucket_capacity b') (ob_buckets b')"
      using uB' by (simp add: b'_def list_all_iff)
    show "snd (ob_pos b') < ob_bucket_capacity b'"
      using cap by (simp add: b'_def j'_def)
    show "offset (ob_bucket_capacity b') (ob_pos b') \<le> ob_bucket_capacity b' * length (ob_buckets b')"
      using off' top' by (simp add: b'_def)
    have "sorted (map (\<lambda>bunch. offset ?cap (fst bunch)) (ob_bunchs b) @ [?K + ?sz])"
      using srt by (auto simp: sorted_append)
    then show "sorted (map (\<lambda>bunch. offset (ob_bucket_capacity b') (fst bunch)) (ob_bunchs b')
             @ [offset (ob_bucket_capacity b') (ob_pos b')])"
      using off' by (simp add: b'_def)
    show "list_all (\<lambda>bunch. snd (fst bunch) < ob_bucket_capacity b') (ob_bunchs b')"
      using bn by (simp add: b'_def)
  qed
  let ?offs = "map (\<lambda>bunch. offset ?cap (fst bunch)) (ob_bunchs b)"
  let ?L = "last (0 # ?offs)"
  have LK: "?L \<le> ?K"
    using srt by (rule sorted_snoc_last0_le)
  have tk: "take ?K (concat (B[?i := bucket])) = take ?K (concat (ob_buckets b))"
    using upd(1) flatB by simp
  have s0: "sorted (0 # ?offs @ [?K])"
    using srt by simp
  have c1: "content_from (concat (B[?i := bucket])) ?cap 0 (ob_bunchs b)
         = content_from (concat (ob_buckets b)) ?cap 0 (ob_bunchs b)"
    using tk s0 by (rule content_from_take_cong)
  have c2: "slice (concat (B[?i := bucket])) ?L (?K + ?sz)
         = slice (concat (ob_buckets b)) ?L ?K @ data"
  proof -
    have "slice (concat (B[?i := bucket])) ?L (?K + ?sz)
        = slice (concat (B[?i := bucket])) ?L ?K @ slice (concat (B[?i := bucket])) ?K (?K + ?sz)"
      using LK by (intro slice_append[symmetric]) simp_all
    moreover have "slice (concat (B[?i := bucket])) ?L ?K = slice (concat (ob_buckets b)) ?L ?K"
      using tk by (rule slice_take_cong) simp
    ultimately show ?thesis using upd(2) by simp
  qed
  have "ob_content b' = content_from (concat (B[?i := bucket])) ?cap 0 (ob_bunchs b)
        @ slice (concat (B[?i := bucket])) ?L (?K + ?sz)"
    unfolding ob_content_def content_from_snoc using off' by (simp add: b'_def)
  also have "\<dots> = (content_from (concat (ob_buckets b)) ?cap 0 (ob_bunchs b)
        @ slice (concat (ob_buckets b)) ?L ?K) @ data"
    using c1 c2 by simp
  also have "\<dots> = ob_content b @ data"
    unfolding ob_content_def content_from_snoc by simp
  finally have "ob_content b' = ob_content b @ data" .
  moreover have "ob_bucket_capacity b' = ?cap" by (simp add: b'_def)
  ultimately show ?thesis using push inv' by blast
qed

lemma ob_push_bunch:
  assumes inv: "ob_inv b"
    and nofit: "\<not> snd (ob_pos b) + length data \<le> ob_bucket_capacity b"
  shows "\<exists>b'. ob_push junk data (length data) b = Inr b' \<and> ob_inv b' \<and>
           ob_content b' = ob_content b @ data \<and> ob_bucket_capacity b' = ob_bucket_capacity b"
proof -
  let ?cap = "ob_bucket_capacity b"
  let ?K = "offset ?cap (ob_pos b)"
  define b' where "b' = b\<lparr>ob_bunchs := ob_bunchs b @ [(ob_pos b, data)]\<rparr>"
  have guard: "\<not> int ?cap - int (snd (ob_pos b)) \<ge> int (length data)"
    using nofit by linarith
  have push: "ob_push junk data (length data) b = Inr b'"
    unfolding ob_push_def Let_def using guard by (simp add: b'_def)
  have srt: "sorted (map (\<lambda>bunch. offset ?cap (fst bunch)) (ob_bunchs b) @ [?K])"
    using inv by (simp add: ob_inv_def)
  then have "sorted (map (\<lambda>bunch. offset ?cap (fst bunch)) (ob_bunchs b) @ [?K, ?K])"
    by (auto simp: sorted_append)
  then have inv': "ob_inv b'"
    using inv by (simp add: ob_inv_def b'_def)
  have "ob_content b' = content_from (concat (ob_buckets b)) ?cap 0 ((ob_bunchs b @ [(ob_pos b, data)]) @ [(ob_pos b, [])])"
    by (simp add: ob_content_def b'_def)
  also have "\<dots> = content_from (concat (ob_buckets b)) ?cap 0 (ob_bunchs b @ [(ob_pos b, data)])"
    unfolding content_from_snoc[of _ _ _ "ob_bunchs b @ [(ob_pos b, data)]"] by simp
  also have "\<dots> = ob_content b @ data"
    unfolding ob_content_def content_from_snoc by simp
  finally have "ob_content b' = ob_content b @ data" .
  moreover have "ob_bucket_capacity b' = ?cap" by (simp add: b'_def)
  ultimately show ?thesis using push inv' by blast
qed

lemma ob_push_content:
  assumes "ob_inv b" and "data \<noteq> []"
  shows "\<exists>b'. ob_push junk data (length data) b = Inr b' \<and> ob_inv b' \<and>
           ob_content b' = ob_content b @ data \<and> ob_bucket_capacity b' = ob_bucket_capacity b"
  using assms ob_push_bucket ob_push_bunch by (cases "snd (ob_pos b) + length data \<le> ob_bucket_capacity b") blast+

lemma ob_clear_inv:
  assumes "ob_inv b"
  shows "ob_inv (ob_clear b)" and "ob_content (ob_clear b) = []" and "ob_len (ob_clear b) = 0"
    and "ob_chunks (ob_clear b) = Inr []"
  using assms by (simp_all add: ob_inv_def ob_clear_def ob_content_def offset_def ob_len_def ob_chunks_def)

section \<open>Properties of consolidation\<close>

lemma np_compress_map: "np_compress (map P xs) xs = filter P xs"
  by (induction xs) (simp_all add: np_compress_def)

lemma count_flags: "length (filter (\<lambda>flag. flag) (map P xs)) = length (filter P xs)"
  by (induction xs) simp_all

lemma filter_full: "length (filter P xs) = length xs \<Longrightarrow> filter P xs = xs"
proof (induction xs)
  case Nil
  then show ?case by simp
next
  case (Cons x xs)
  have "length (filter P xs) \<le> length xs" by simp
  with Cons.prems have "P x"
    by (cases "P x") auto
  with Cons show ?case by simp
qed

lemma copy_chunks_filter:
  assumes "i + length (concat (map (filter P) chunks)) \<le> length array"
  shows "copy_chunks (zip (map (map P) chunks)
            (zip chunks (map (\<lambda>flags. length (filter (\<lambda>flag. flag) flags)) (map (map P) chunks)))) i array
         = take i array @ concat (map (filter P) chunks)
           @ drop (i + length (concat (map (filter P) chunks))) array"
  using assms
proof (induction chunks arbitrary: i array)
  case Nil
  then show ?case by simp
next
  case (Cons chunk chunks)
  let ?seg = "filter P chunk"
  let ?c = "length ?seg"
  let ?rest = "concat (map (filter P) chunks)"
  define array' where "array' = np_assign_slice array i ?c ?seg"
  have ile: "i + ?c \<le> length array"
    using Cons.prems by simp
  have len': "length array' = length array"
    using ile by (simp add: array'_def np_assign_slice_def)
  have tk: "take (i + ?c) array' = take i array @ ?seg"
    using ile by (simp add: array'_def np_assign_slice_def)
  have dr: "drop (i + ?c + length ?rest) array' = drop (i + ?c + length ?rest) array"
    using ile by (simp add: array'_def np_assign_slice_def ac_simps)
  have pre: "(i + ?c) + length ?rest \<le> length array'"
    using Cons.prems len' by simp
  have same: "(if ?c = length chunk then np_assign_slice array i ?c chunk
               else np_assign_slice array i ?c (np_compress (map P chunk) chunk)) = array'"
    by (simp add: array'_def np_compress_map filter_full)
  have "copy_chunks (zip (map (map P) (chunk # chunks))
            (zip (chunk # chunks) (map (\<lambda>flags. length (filter (\<lambda>flag. flag) flags)) (map (map P) (chunk # chunks))))) i array
        = copy_chunks (zip (map (map P) chunks)
            (zip chunks (map (\<lambda>flags. length (filter (\<lambda>flag. flag) flags)) (map (map P) chunks)))) (i + ?c) array'"
  proof (cases "?c = length chunk")
    case True
    then have "np_assign_slice array i ?c chunk = array'"
      using same by simp
    with True show ?thesis
      by (simp only: list.map zip_Cons_Cons copy_chunks.simps count_flags if_True simp_thms)
  next
    case False
    then have "np_assign_slice array i ?c (np_compress (map P chunk) chunk) = array'"
      using same by simp
    with False show ?thesis
      by (simp only: list.map zip_Cons_Cons copy_chunks.simps count_flags if_False simp_thms)
  qed
  also have "\<dots> = take (i + ?c) array' @ ?rest @ drop (i + ?c + length ?rest) array'"
    by (rule Cons.IH[OF pre])
  finally show ?case
    using tk dr by (simp add: add.assoc)
qed


lemma slice_length: "b \<le> length xs \<Longrightarrow> length (slice xs a b) = b - a"
  by (simp add: slice_def)

lemma content_from_length:
  assumes "sorted (off # map (\<lambda>bunch. offset cap (fst bunch)) bunchs)"
    and "\<forall>bunch\<in>set bunchs. offset cap (fst bunch) \<le> length flat"
  shows "length (content_from flat cap off bunchs)
         = last (off # map (\<lambda>bunch. offset cap (fst bunch)) bunchs) - off
           + sum_list (map (\<lambda>bunch. length (snd bunch)) bunchs)"
  using assms
proof (induction bunchs arbitrary: off)
  case Nil
  then show ?case by simp
next
  case (Cons bunch bunchs)
  obtain p d where bunch: "bunch = (p, d)" by (cases bunch)
  let ?o = "offset cap p"
  let ?offs = "map (\<lambda>bunch. offset cap (fst bunch)) bunchs"
  have a: "off \<le> ?o" "?o \<le> length flat" "sorted (?o # ?offs)"
    using Cons.prems by (simp_all add: bunch)
  have "last (?o # ?offs) \<in> set (?o # ?offs)"
    by (rule last_in_set) simp
  then have b: "?o \<le> last (?o # ?offs)"
    using a(3) by auto
  have "length (content_from flat cap ?o bunchs)
      = last (?o # ?offs) - ?o + sum_list (map (\<lambda>bunch. length (snd bunch)) bunchs)"
    using a(3) Cons.prems(2) by (intro Cons.IH) simp_all
  then show ?case
    using a b by (simp add: bunch slice_length)
qed

lemma ob_len_content:
  assumes "ob_inv b"
  shows "ob_len b = length (ob_content b)"
proof -
  let ?cap = "ob_bucket_capacity b"
  let ?bs = "ob_bunchs b @ [(ob_pos b, [])]"
  have u: "\<forall>bk\<in>set (ob_buckets b). length bk = ?cap"
    using assms by (simp add: ob_inv_def list_all_iff)
  have flat: "length (concat (ob_buckets b)) = length (ob_buckets b) * ?cap"
    using u by (rule length_concat_uniform)
  have srt: "sorted (map (\<lambda>bunch. offset ?cap (fst bunch)) (ob_bunchs b) @ [offset ?cap (ob_pos b)])"
    and top: "offset ?cap (ob_pos b) \<le> ?cap * length (ob_buckets b)"
    using assms by (simp_all add: ob_inv_def)
  have s0: "sorted (0 # map (\<lambda>bunch. offset ?cap (fst bunch)) ?bs)"
    using srt by simp
  have r: "\<forall>bunch\<in>set ?bs. offset ?cap (fst bunch) \<le> length (concat (ob_buckets b))"
  proof
    fix bunch assume "bunch \<in> set ?bs"
    then have "offset ?cap (fst bunch) \<le> offset ?cap (ob_pos b)"
      using sorted_snoc_last_le[OF srt] by auto
    then show "offset ?cap (fst bunch) \<le> length (concat (ob_buckets b))"
      using top flat by (simp add: mult.commute)
  qed
  have "length (ob_content b) = offset ?cap (ob_pos b)
        + sum_list (map (\<lambda>bunch. length (snd bunch)) (ob_bunchs b))"
    unfolding ob_content_def content_from_length[OF s0 r] by simp
  then show ?thesis
    by (simp add: ob_len_def offset_def mult.commute)
qed

lemma sum_counts:
  "sum_list (map (\<lambda>flags. length (filter (\<lambda>flag. flag) flags)) (map (map P) chunks))
     = length (filter P (concat chunks))"
  by (induction chunks) (simp_all add: comp_def)

lemma resize_no_copy:
  assumes "0 \<le> requested"
  shows "\<exists>a'. resize junk requested False a = Inr a' \<and> da_size a' = requested \<and>
           requested \<le> int (length (da_array a'))"
proof (cases "requested \<le> int (length (da_array a))")
  case True
  then show ?thesis
    by (simp add: resize_def grow_def)
next
  case False
  then have lt: "int (length (da_array a)) < requested" by simp
  have "requested \<le> grow_capacity requested (int (length (da_array a)))"
    by (simp add: grow_capacity_def)
  then show ?thesis
    using assms by (simp add: resize_def grow_no_copy[OF lt])
qed

lemma da_data_prefix:
  "da_size a = int (length xs) \<Longrightarrow> da_array a = xs @ ys \<Longrightarrow> da_data a = xs"
  by (simp add: da_data_def py_upto_def)

definition consolidate_noop :: "psim \<Rightarrow> bool" where
  "consolidate_noop sim \<longleftrightarrow>
     ob_len (ps_buffer sim) = 0 \<and> list_all alive (da_data (ps_array sim))"

lemma consolidate_result:
  assumes inv: "ob_inv (ps_buffer sim)"
    and sz: "0 \<le> da_size (ps_array sim)" "da_size (ps_array sim) \<le> da_capacity (ps_array sim)"
  shows "\<exists>sim'. consolidate junk sim = Inr sim' \<and>
     da_data (ps_array sim') = filter alive (da_data (ps_array sim) @ ob_content (ps_buffer sim)) \<and>
     ob_inv (ps_buffer sim') \<and> ob_content (ps_buffer sim') = [] \<and> ob_len (ps_buffer sim') = 0 \<and>
     0 \<le> da_size (ps_array sim') \<and> da_size (ps_array sim') \<le> da_capacity (ps_array sim') \<and>
     ps_time sim' = ps_time sim \<and> ps_time_step sim' = ps_time_step sim \<and>
     ps_last_id sim' = ps_last_id sim \<and>
     (if consolidate_noop sim then sim' = sim else ps_kd_tree sim' = None)"
proof -
  let ?arr = "ps_array sim" and ?buf = "ps_buffer sim"
  let ?data = "da_data ?arr"
  obtain cs where cs: "ob_chunks ?buf = Inr cs" "concat cs = ob_content ?buf"
    using ob_chunks_content[OF inv] by blast
  let ?chunks = "?data # cs"
  let ?filters = "map (map alive) ?chunks"
  let ?counts = "map (\<lambda>flags. length (filter (\<lambda>flag. flag) flags)) ?filters"
  let ?new = "filter alive (?data @ ob_content ?buf)"
  have new_size: "sum_list ?counts = length ?new"
    using sum_counts[of alive ?chunks] cs(2) by (simp only: concat.simps)
  have ldata: "length ?data = nat (da_size ?arr)" "int (length ?data) = da_size ?arr"
    using sz by (simp_all add: da_data_def py_upto_def da_capacity_def)
  have len: "ob_len ?buf = length (ob_content ?buf)"
    using inv by (rule ob_len_content)
  have cons_eq: "consolidate junk sim =
      (if ob_len ?buf = 0 \<and> int (length ?new) = da_size ?arr then Inr sim
       else bind_err (resize junk (int (length ?new)) False ?arr) (\<lambda>arr.
              Inr (sim\<lparr>ps_array := arr\<lparr>da_array :=
                          copy_chunks (zip ?filters (zip ?chunks ?counts)) 0 (da_array arr)\<rparr>,
                        ps_buffer := ob_clear ?buf, ps_kd_tree := None\<rparr>)))"
    unfolding consolidate_def cs(1) bind_err_Inr Let_def new_size ..
  show ?thesis
  proof (cases "ob_len ?buf = 0 \<and> int (length ?new) = da_size ?arr")
    case True
    then have empty: "ob_content ?buf = []"
      using len by simp
    then have "int (length (filter alive ?data)) = int (length ?data)"
      using True ldata(2) by simp
    then have "length (filter alive ?data) = length ?data"
      by linarith
    then have full: "filter alive ?data = ?data"
      by (rule filter_full)
    then have "list_all alive ?data"
      by (metis filter_id_conv list_all_iff)
    then have noop: "consolidate_noop sim"
      using True by (simp add: consolidate_noop_def)
    have "consolidate junk sim = Inr sim"
      unfolding cons_eq using True by simp
    then show ?thesis
      using empty full inv sz True noop by simp
  next
    case False
    have not_noop: "\<not> consolidate_noop sim"
    proof
      assume n: "consolidate_noop sim"
      then have "ob_content ?buf = []"
        using len by (simp add: consolidate_noop_def)
      moreover have "filter alive ?data = ?data"
        using n by (simp add: consolidate_noop_def list_all_iff)
      ultimately have "int (length ?new) = da_size ?arr"
        using ldata by simp
      with n False show False
        by (simp add: consolidate_noop_def)
    qed
    obtain arr where arr: "resize junk (int (length ?new)) False ?arr = Inr arr"
      "da_size arr = int (length ?new)" "int (length ?new) \<le> int (length (da_array arr))"
      using resize_no_copy[of "int (length ?new)" junk ?arr] by auto
    define storage where
      "storage = copy_chunks (zip ?filters (zip ?chunks ?counts)) 0 (da_array arr)"
    define sim' where "sim' = sim\<lparr>ps_array := arr\<lparr>da_array := storage\<rparr>,
                        ps_buffer := ob_clear ?buf, ps_kd_tree := None\<rparr>"
    have c: "consolidate junk sim = Inr sim'"
      unfolding cons_eq using False by (simp only: if_False arr(1) bind_err_Inr sim'_def storage_def)
    have cat: "concat (map (filter alive) ?chunks) = ?new"
      using cs(2) by (simp add: filter_concat[symmetric] del: filter_concat)
    have fits: "0 + length (concat (map (filter alive) ?chunks)) \<le> length (da_array arr)"
      using arr(3) cat by simp
    have storage: "storage = ?new @ drop (length ?new) (da_array arr)"
      unfolding storage_def copy_chunks_filter[OF fits] cat by simp
    have arr': "da_size (ps_array sim') = int (length ?new)"
      "da_array (ps_array sim') = ?new @ drop (length ?new) (da_array arr)"
      using arr(2) storage by (simp_all add: sim'_def)
    have data': "da_data (ps_array sim') = ?new"
      using arr' by (rule da_data_prefix)
    have "length (da_array (ps_array sim')) = length (da_array arr)"
      unfolding arr'(2) using arr(3) by simp
    then have cap': "da_size (ps_array sim') \<le> da_capacity (ps_array sim')"
      using arr'(1) arr(3) by (simp add: da_capacity_def)
    have rest: "ob_inv (ps_buffer sim')" "ob_content (ps_buffer sim') = []"
      "ob_len (ps_buffer sim') = 0" "0 \<le> da_size (ps_array sim')"
      "ps_time sim' = ps_time sim" "ps_time_step sim' = ps_time_step sim"
      "ps_last_id sim' = ps_last_id sim" "ps_kd_tree sim' = None"
      using ob_clear_inv[OF inv] arr(2) by (simp_all add: sim'_def)
    show ?thesis
      using c data' cap' rest not_noop by simp
  qed
qed

section \<open>Calls on a simulation, and its invariant\<close>

text \<open>
  An in-place mutation through a handle: the slot the handle views is overwritten. A
  handle whose slot is not part of the simulation's memory any more (the array was
  reallocated, the bunch was dropped) changes nothing of the simulation.
\<close>

definition mutate :: "handle \<Rightarrow> (particle \<Rightarrow> particle) \<Rightarrow> psim \<Rightarrow> psim" where
  "mutate h f sim =
     (case h of
        InStore i \<Rightarrow>
          sim\<lparr>ps_array := (ps_array sim)\<lparr>da_array :=
                 (da_array (ps_array sim))[i := f (da_array (ps_array sim) ! i)]\<rparr>\<rparr>
      | InBucket i j \<Rightarrow>
          sim\<lparr>ps_buffer := (ps_buffer sim)\<lparr>ob_buckets :=
                 (ob_buckets (ps_buffer sim))[i :=
                    (ob_buckets (ps_buffer sim) ! i)[j := f (ob_buckets (ps_buffer sim) ! i ! j)]]\<rparr>\<rparr>
      | InBunch k j \<Rightarrow>
          sim\<lparr>ps_buffer := (ps_buffer sim)\<lparr>ob_bunchs :=
                 (ob_bunchs (ps_buffer sim))[k :=
                    (fst (ob_bunchs (ps_buffer sim) ! k),
                     (snd (ob_bunchs (ps_buffer sim) ! k))[j := f (snd (ob_bunchs (ps_buffer sim) ! k) ! j)])]\<rparr>\<rparr>)"

definition set_alive :: "handle \<Rightarrow> bool \<Rightarrow> psim \<Rightarrow> psim" where
  "set_alive h v sim = mutate h (\<lambda>p. p\<lparr>alive := v\<rparr>) sim"

definition ob_map :: "('a \<Rightarrow> 'b) \<Rightarrow> 'a ordered_buffer \<Rightarrow> 'b ordered_buffer" where
  "ob_map f b = \<lparr>ob_buckets = map (map f) (ob_buckets b),
                 ob_bucket_capacity = ob_bucket_capacity b,
                 ob_pos = ob_pos b,
                 ob_bunchs = map (\<lambda>bunch. (fst bunch, map f (snd bunch))) (ob_bunchs b)\<rparr>"

lemma slice_map: "slice (map f xs) a b = map f (slice xs a b)"
  by (simp add: slice_def take_map drop_map)

lemma content_from_map:
  "content_from (map f flat) cap off (map (\<lambda>bunch. (fst bunch, map f (snd bunch))) bunchs)
     = map f (content_from flat cap off bunchs)"
  by (induction bunchs arbitrary: off) (auto simp: slice_map)

lemma ob_content_map: "ob_content (ob_map f b) = map f (ob_content b)"
proof -
  let ?g = "\<lambda>bunch. (fst bunch, map f (snd bunch))"
  have "concat (map (map f) (ob_buckets b)) = map f (concat (ob_buckets b))"
    by (rule map_concat[symmetric])
  moreover have "map ?g (ob_bunchs b) @ [(ob_pos b, [])] = map ?g (ob_bunchs b @ [(ob_pos b, [])])"
    by simp
  ultimately have "ob_content (ob_map f b)
      = content_from (map f (concat (ob_buckets b))) (ob_bucket_capacity b) 0
          (map ?g (ob_bunchs b @ [(ob_pos b, [])]))"
    unfolding ob_content_def ob_map_def by (simp del: map_append)
  then show ?thesis
    unfolding content_from_map ob_content_def .
qed

lemma ob_inv_map: "ob_inv (ob_map f b) = ob_inv b"
  by (simp add: ob_inv_def ob_map_def list_all_iff comp_def)

lemma list_update_map_same:
  assumes "g y = g (xs ! i)"
  shows "map g (xs[i := y]) = map g xs"
proof (cases "i < length xs")
  case True
  have "map g (xs[i := y]) = (map g xs)[i := g y]"
    by (rule map_update)
  also have "\<dots> = (map g xs)[i := map g xs ! i]"
    using assms True by simp
  also have "\<dots> = map g xs"
    by (rule list_update_id)
  finally show ?thesis .
next
  case False
  then have "length xs \<le> i" by linarith
  then show ?thesis by (simp only: list_update_beyond)
qed

lemma mutate_buffer_ids:
  assumes "\<And>p. pid (f p) = pid p"
  shows "ob_map pid (ps_buffer (mutate h f sim)) = ob_map pid (ps_buffer sim)"
proof (cases h)
  case (InStore i)
  then show ?thesis by (simp add: mutate_def)
next
  case (InBucket i j)
  let ?bs = "ob_buckets (ps_buffer sim)"
  have "map pid ((?bs ! i)[j := f (?bs ! i ! j)]) = map pid (?bs ! i)"
    using assms by (intro list_update_map_same) simp
  then have "map (map pid) (?bs[i := (?bs ! i)[j := f (?bs ! i ! j)]]) = map (map pid) ?bs"
    by (rule list_update_map_same)
  then show ?thesis
    by (simp add: mutate_def InBucket ob_map_def)
next
  case (InBunch k j)
  let ?bs = "ob_bunchs (ps_buffer sim)"
  let ?g = "\<lambda>bunch. (fst bunch, map pid (snd bunch))"
  have "map pid ((snd (?bs ! k))[j := f (snd (?bs ! k) ! j)]) = map pid (snd (?bs ! k))"
    using assms by (intro list_update_map_same) simp
  then have "?g (fst (?bs ! k), (snd (?bs ! k))[j := f (snd (?bs ! k) ! j)]) = ?g (?bs ! k)"
    by simp
  then have "map ?g (?bs[k := (fst (?bs ! k), (snd (?bs ! k))[j := f (snd (?bs ! k) ! j)])]) = map ?g ?bs"
    by (rule list_update_map_same)
  then show ?thesis
    by (simp add: mutate_def InBunch ob_map_def)
qed

lemma mutate_store_ids:
  assumes "\<And>p. pid (f p) = pid p"
  shows "map pid (da_data (ps_array (mutate h f sim))) = map pid (da_data (ps_array sim))"
    and "da_size (ps_array (mutate h f sim)) = da_size (ps_array sim)"
    and "da_capacity (ps_array (mutate h f sim)) = da_capacity (ps_array sim)"
proof -
  let ?a = "da_array (ps_array sim)"
  have "map pid (?a[i := f (?a ! i)]) = map pid ?a" for i
    using assms by (intro list_update_map_same) simp
  then have "map pid (py_upto n (?a[i := f (?a ! i)])) = map pid (py_upto n ?a)" for i n
    by (simp add: py_upto_def take_map[symmetric] del: take_map)
  then show "map pid (da_data (ps_array (mutate h f sim))) = map pid (da_data (ps_array sim))"
    by (cases h) (simp_all add: mutate_def da_data_def)
  show "da_size (ps_array (mutate h f sim)) = da_size (ps_array sim)"
    by (cases h) (simp_all add: mutate_def)
  show "da_capacity (ps_array (mutate h f sim)) = da_capacity (ps_array sim)"
    by (cases h) (simp_all add: mutate_def da_capacity_def)
qed


text \<open>
  The calls a client makes on a simulation: \<^verbatim>\<open>add_particle\<close>, \<^verbatim>\<open>add_particles\<close>, an
  assignment to the \<^verbatim>\<open>alive\<close> attribute through a handle, and \<^verbatim>\<open>consolidate\<close>. A
  sequence of calls stops at the first one that raises.
\<close>

datatype sim_op = AddParticle "particle \<Rightarrow> particle" | AddParticles int
  | SetAlive handle bool | Consolidate

fun apply_op :: "(nat \<Rightarrow> particle) \<Rightarrow> sim_op \<Rightarrow> psim \<Rightarrow> error + psim" where
  "apply_op junk (AddParticle kwargs) sim =
     bind_err (add_particle junk kwargs sim) (\<lambda>r. Inr (snd r))"
| "apply_op junk (AddParticles count) sim =
     bind_err (add_particles junk count sim) (\<lambda>r. Inr (snd r))"
| "apply_op junk (SetAlive h v) sim = Inr (set_alive h v sim)"
| "apply_op junk Consolidate sim = consolidate junk sim"

fun run_ops :: "(nat \<Rightarrow> particle) \<Rightarrow> sim_op list \<Rightarrow> psim \<Rightarrow> error + psim" where
  "run_ops junk [] sim = Inr sim"
| "run_ops junk (x # xs) sim = bind_err (apply_op junk x sim) (run_ops junk xs)"

text \<open>The number of ids a call takes.\<close>

fun added :: "sim_op \<Rightarrow> int" where
  "added (AddParticle kwargs) = 1"
| "added (AddParticles count) = max 0 count"
| "added (SetAlive h v) = 0"
| "added Consolidate = 0"

definition sim_ids :: "psim \<Rightarrow> int list" where
  "sim_ids sim = map pid (da_data (ps_array sim) @ ob_content (ps_buffer sim))"

definition sim_inv :: "psim \<Rightarrow> bool" where
  "sim_inv sim \<longleftrightarrow>
     ob_inv (ps_buffer sim) \<and>
     0 \<le> da_size (ps_array sim) \<and> da_size (ps_array sim) \<le> da_capacity (ps_array sim) \<and>
     sorted_wrt (<) (sim_ids sim) \<and>
     list_all (\<lambda>i. i \<le> ps_last_id sim) (sim_ids sim) \<and>
     - 1 \<le> ps_last_id sim \<and> ps_last_id sim < 2 ^ 31"

lemma to_int32_id: "- (2 ^ 31) \<le> x \<Longrightarrow> x < 2 ^ 31 \<Longrightarrow> to_int32 x = x"
  by (simp add: to_int32_def)

lemma init_inv:
  assumes "0 \<le> capacity" and "1 \<le> bucket_capacity"
  shows "\<exists>sim. ParticleSimulation_init junk time_step capacity bucket_capacity None = Inr sim \<and>
           sim_inv sim \<and> ps_last_id sim = - 1 \<and> ps_kd_tree sim = None \<and>
           ps_time sim = 0 \<and> ps_time_step sim = time_step"
  using assms
  by (simp add: ParticleSimulation_init_def DynamicArray_init_def np_empty_def
      OrderedBuffer_init_def sim_inv_def ob_inv_def offset_def sim_ids_def da_data_def
      py_upto_def ob_content_def da_capacity_def)

lemma sorted_ids_append:
  assumes "sorted_wrt (<) (xs :: int list)" and "list_all (\<lambda>i. i \<le> l) xs"
  shows "sorted_wrt (<) (xs @ map (\<lambda>k. l + 1 + int k) [0..<n])"
    and "list_all (\<lambda>i. i \<le> l + int n) (xs @ map (\<lambda>k. l + 1 + int k) [0..<n])"
proof -
  have new: "sorted_wrt (<) (map (\<lambda>k. l + 1 + int k) [0..<n])"
    by (simp add: sorted_wrt_map sorted_wrt_upt) 
  have "\<forall>x\<in>set xs. \<forall>y\<in>set (map (\<lambda>k. l + 1 + int k) [0..<n]). x < y"
    using assms(2) by (auto simp: list_all_iff)
  then show "sorted_wrt (<) (xs @ map (\<lambda>k. l + 1 + int k) [0..<n])"
    using assms(1) new by (simp add: sorted_wrt_append)
  show "list_all (\<lambda>i. i \<le> l + int n) (xs @ map (\<lambda>k. l + 1 + int k) [0..<n])"
    using assms(2) by (auto simp: list_all_iff)
qed

lemma push_sim_inv:
  assumes inv: "sim_inv sim" and n: "0 < n" and fit: "ps_last_id sim + int n < 2 ^ 31"
    and data: "map pid data = map (\<lambda>k. to_int32 (ps_last_id sim + 1 + int k)) [0..<n]"
  shows "\<exists>buf. ob_push junk data (length data) (ps_buffer sim) = Inr buf \<and>
           ob_content buf = ob_content (ps_buffer sim) @ data \<and>
           sim_inv (sim\<lparr>ps_buffer := buf, ps_last_id := ps_last_id sim + int n\<rparr>) \<and>
           pid (last data) = ps_last_id sim + int n"
proof -
  have len: "length data = n"
    using data by (metis length_map length_upt minus_nat.diff_0)
  then have ne: "data \<noteq> []"
    using n by auto
  have binv: "ob_inv (ps_buffer sim)"
    using inv by (simp add: sim_inv_def)
  obtain buf where buf: "ob_push junk data (length data) (ps_buffer sim) = Inr buf"
    "ob_inv buf" "ob_content buf = ob_content (ps_buffer sim) @ data"
    using ob_push_content[OF binv ne] by blast
  have lid: "- 1 \<le> ps_last_id sim"
    using inv by (simp add: sim_inv_def)
  have "to_int32 (ps_last_id sim + 1 + int k) = ps_last_id sim + 1 + int k" if "k < n" for k
    using that lid fit by (intro to_int32_id) simp_all
  then have ids: "map pid data = map (\<lambda>k. ps_last_id sim + 1 + int k) [0..<n]"
    using data by simp
  let ?sim' = "sim\<lparr>ps_buffer := buf, ps_last_id := ps_last_id sim + int n\<rparr>"
  have sids: "sim_ids ?sim' = sim_ids sim @ map (\<lambda>k. ps_last_id sim + 1 + int k) [0..<n]"
    using buf(3) ids by (simp add: sim_ids_def)
  have old: "sorted_wrt (<) (sim_ids sim)" "list_all (\<lambda>i. i \<le> ps_last_id sim) (sim_ids sim)"
    using inv by (simp_all add: sim_inv_def)
  have "sim_inv ?sim'"
    unfolding sim_inv_def sids
    using inv buf(2) sorted_ids_append[OF old, of n] fit by (simp add: sim_inv_def)
  moreover have "pid (last data) = last (map pid data)"
    using ne by (simp add: last_map)
  then have "pid (last data) = ps_last_id sim + int n"
    unfolding ids using n by (simp add: last_map)
  ultimately show ?thesis
    using buf by blast
qed


lemma add_particle_inv:
  assumes inv: "sim_inv sim" and fit: "ps_last_id sim + 1 < 2 ^ 31"
  shows "\<exists>h sim'. add_particle junk kwargs sim = Inr (h, sim') \<and> sim_inv sim' \<and>
           ps_last_id sim' = ps_last_id sim + 1 \<and> ps_array sim' = ps_array sim \<and>
           ps_kd_tree sim' = ps_kd_tree sim \<and>
           ob_content (ps_buffer sim') = ob_content (ps_buffer sim)
             @ [(kwargs default_particle)\<lparr>pid := ps_last_id sim + 1\<rparr>]"
proof -
  let ?p = "(kwargs default_particle)\<lparr>pid := to_int32 (ps_last_id sim + 1)\<rparr>"
  have fit': "ps_last_id sim + int 1 < 2 ^ 31"
    using fit by simp
  have data: "map pid [?p] = map (\<lambda>k. to_int32 (ps_last_id sim + 1 + int k)) [0..<1]"
    by simp
  obtain buf where buf: "ob_push junk [?p] (length [?p]) (ps_buffer sim) = Inr buf"
    "ob_content buf = ob_content (ps_buffer sim) @ [?p]"
    "sim_inv (sim\<lparr>ps_buffer := buf, ps_last_id := ps_last_id sim + int 1\<rparr>)"
    "pid (last [?p]) = ps_last_id sim + int 1"
    using push_sim_inv[OF inv _ fit' data, of junk] by auto
  have id: "to_int32 (ps_last_id sim + 1) = ps_last_id sim + 1"
    using buf(4) by simp
  show ?thesis
    using buf(1-3) id by (simp add: add_particle_def ob_append_def)
qed

lemma add_particles_inv:
  assumes inv: "sim_inv sim" and pos: "0 < count" and fit: "ps_last_id sim + count < 2 ^ 31"
  shows "\<exists>hs sim'. add_particles junk count sim = Inr (hs, sim') \<and> sim_inv sim' \<and>
           ps_last_id sim' = ps_last_id sim + count \<and> ps_array sim' = ps_array sim \<and>
           ps_kd_tree sim' = ps_kd_tree sim \<and>
           ob_content (ps_buffer sim') = ob_content (ps_buffer sim)
             @ map (\<lambda>k. default_particle\<lparr>pid := ps_last_id sim + 1 + int k\<rparr>) [0..<nat count]"
proof -
  let ?n = "nat count"
  let ?array = "map (\<lambda>k. default_particle\<lparr>pid := to_int32 (ps_last_id sim + 1 + int k)\<rparr>) [0..<?n]"
  have n: "0 < ?n" and fit': "ps_last_id sim + int ?n < 2 ^ 31"
    using pos fit by simp_all
  have data: "map pid ?array = map (\<lambda>k. to_int32 (ps_last_id sim + 1 + int k)) [0..<?n]"
    by simp
  obtain buf where buf: "ob_push junk ?array (length ?array) (ps_buffer sim) = Inr buf"
    "ob_content buf = ob_content (ps_buffer sim) @ ?array"
    "sim_inv (sim\<lparr>ps_buffer := buf, ps_last_id := ps_last_id sim + int ?n\<rparr>)"
    "pid (last ?array) = ps_last_id sim + int ?n"
    using push_sim_inv[OF inv n fit' data, of junk] by auto
  have lid: "- 1 \<le> ps_last_id sim"
    using inv by (simp add: sim_inv_def)
  have "to_int32 (ps_last_id sim + 1 + int k) = ps_last_id sim + 1 + int k" if "k < ?n" for k
  proof -
    have "int k < count" using that by linarith
    then show ?thesis
      using lid fit by (intro to_int32_id) simp_all
  qed
  then have arr: "?array = map (\<lambda>k. default_particle\<lparr>pid := ps_last_id sim + 1 + int k\<rparr>) [0..<?n]"
    by simp
  have ne: "?array \<noteq> []" "\<not> length ?array < 1"
    using n by simp_all
  have ext: "ob_extend junk ?array (ps_buffer sim) = Inr buf"
    unfolding ob_extend_def using buf(1) ne(2) by (simp only: if_False)
  have nn: "\<not> count < 0" using pos by simp
  have "\<exists>hs. add_particles junk count sim
      = Inr (hs, sim\<lparr>ps_buffer := buf, ps_last_id := pid (last ?array)\<rparr>)"
    unfolding add_particles_def Let_def ext bind_err_Inr using nn ne(1)
    by (simp only: if_False) blast
  then show ?thesis
    using buf(2,3) buf(4) arr pos by auto
qed

lemma mutate_inv:
  assumes "sim_inv sim" and "\<And>p. pid (f p) = pid p"
  shows "sim_inv (mutate h f sim)" and "ps_last_id (mutate h f sim) = ps_last_id sim"
    and "ps_kd_tree (mutate h f sim) = ps_kd_tree sim"
proof -
  let ?s = "mutate h f sim"
  have b: "ob_map pid (ps_buffer ?s) = ob_map pid (ps_buffer sim)"
    using assms(2) by (rule mutate_buffer_ids)
  have "ob_inv (ps_buffer ?s) = ob_inv (ob_map pid (ps_buffer ?s))"
    by (simp only: ob_inv_map)
  then have binv: "ob_inv (ps_buffer ?s) = ob_inv (ps_buffer sim)"
    unfolding b by (simp only: ob_inv_map)
  have "map pid (ob_content (ps_buffer ?s)) = ob_content (ob_map pid (ps_buffer ?s))"
    by (simp only: ob_content_map)
  then have bids: "map pid (ob_content (ps_buffer ?s)) = map pid (ob_content (ps_buffer sim))"
    unfolding b by (simp only: ob_content_map)
  show l: "ps_last_id ?s = ps_last_id sim"
    by (cases h) (simp_all add: mutate_def)
  show "ps_kd_tree ?s = ps_kd_tree sim"
    by (cases h) (simp_all add: mutate_def)
  have ids: "sim_ids ?s = sim_ids sim"
    using bids mutate_store_ids(1)[OF assms(2), of h sim] by (simp add: sim_ids_def)
  show "sim_inv ?s"
    using assms(1) unfolding sim_inv_def ids binv l
      mutate_store_ids(2)[OF assms(2)] mutate_store_ids(3)[OF assms(2)] .
qed

lemma consolidate_inv:
  assumes "sim_inv sim"
  shows "\<exists>sim'. consolidate junk sim = Inr sim' \<and> sim_inv sim' \<and>
     da_data (ps_array sim') = filter alive (da_data (ps_array sim) @ ob_content (ps_buffer sim)) \<and>
     ob_content (ps_buffer sim') = [] \<and> ob_len (ps_buffer sim') = 0 \<and>
     ps_last_id sim' = ps_last_id sim \<and>
     (if consolidate_noop sim then sim' = sim else ps_kd_tree sim' = None)"
proof -
  have a: "ob_inv (ps_buffer sim)" "0 \<le> da_size (ps_array sim)"
    "da_size (ps_array sim) \<le> da_capacity (ps_array sim)"
    using assms by (simp_all add: sim_inv_def)
  obtain sim' where s: "consolidate junk sim = Inr sim'"
    "da_data (ps_array sim') = filter alive (da_data (ps_array sim) @ ob_content (ps_buffer sim))"
    "ob_inv (ps_buffer sim')" "ob_content (ps_buffer sim') = []" "ob_len (ps_buffer sim') = 0"
    "0 \<le> da_size (ps_array sim')" "da_size (ps_array sim') \<le> da_capacity (ps_array sim')"
    "ps_last_id sim' = ps_last_id sim"
    "if consolidate_noop sim then sim' = sim else ps_kd_tree sim' = None"
    using consolidate_result[OF a, of junk] by blast
  define xs where "xs = da_data (ps_array sim) @ ob_content (ps_buffer sim)"
  have ids: "sim_ids sim' = map pid (filter alive xs)" "sim_ids sim = map pid xs"
    using s(2,4) by (simp_all add: sim_ids_def xs_def)
  have "sorted_wrt (<) (sim_ids sim)" "list_all (\<lambda>i. i \<le> ps_last_id sim) (sim_ids sim)"
    using assms by (simp_all add: sim_inv_def)
  then have "sorted_wrt (<) (sim_ids sim')" "list_all (\<lambda>i. i \<le> ps_last_id sim) (sim_ids sim')"
    unfolding ids
    by (simp_all add: sorted_wrt_map sorted_wrt_filter list_all_iff)
  then have "sim_inv sim'"
    using assms s(3,6,7,8) by (simp add: sim_inv_def)
  then show ?thesis
    using s by blast
qed


lemma added_nonneg: "0 \<le> sum_list (map added ops)"
proof (induction ops)
  case Nil
  then show ?case by simp
next
  case (Cons x xs)
  have "0 \<le> added x" by (cases x) simp_all
  with Cons show ?case by simp
qed

lemma add_particles_Inr_pos:
  assumes "add_particles junk count sim = Inr r"
  shows "0 < count"
proof (rule ccontr)
  assume "\<not> 0 < count"
  then consider "count < 0" | "count = 0" by linarith
  then show False
  proof cases
    case 1
    with assms show False by (simp add: add_particles_def)
  next
    case 2
    with assms show False by (simp add: add_particles_def ob_extend_def)
  qed
qed

lemma apply_op_inv:
  assumes inv: "sim_inv sim" and fit: "ps_last_id sim + added x < 2 ^ 31"
    and ap: "apply_op junk x sim = Inr sim'"
  shows "sim_inv sim'" and "ps_last_id sim' = ps_last_id sim + added x"
    and "ps_kd_tree sim = None \<Longrightarrow> ps_kd_tree sim' = None"
proof -
  have "sim_inv sim' \<and> ps_last_id sim' = ps_last_id sim + added x \<and>
        (ps_kd_tree sim = None \<longrightarrow> ps_kd_tree sim' = None)"
  proof (cases x)
    case (AddParticle kwargs)
    then have "ps_last_id sim + 1 < 2 ^ 31" using fit by simp
    from add_particle_inv[OF inv this, of junk kwargs] ap AddParticle show ?thesis
      by auto
  next
    case (AddParticles count)
    obtain r where r: "add_particles junk count sim = Inr r"
      using ap AddParticles by (cases "add_particles junk count sim") simp_all
    then have pos: "0 < count" by (rule add_particles_Inr_pos)
    then have "ps_last_id sim + count < 2 ^ 31" using fit AddParticles by simp
    from add_particles_inv[OF inv pos this, of junk] ap AddParticles pos show ?thesis
      by auto
  next
    case (SetAlive h v)
    have "sim_inv (mutate h (\<lambda>p. p\<lparr>alive := v\<rparr>) sim)"
      "ps_last_id (mutate h (\<lambda>p. p\<lparr>alive := v\<rparr>) sim) = ps_last_id sim"
      "ps_kd_tree (mutate h (\<lambda>p. p\<lparr>alive := v\<rparr>) sim) = ps_kd_tree sim"
      using inv by (rule mutate_inv, simp)+
    with ap SetAlive show ?thesis
      by (auto simp: set_alive_def)
  next
    case Consolidate
    from consolidate_inv[OF inv, of junk] ap Consolidate show ?thesis
      by (auto split: if_splits)
  qed
  then show "sim_inv sim'" and "ps_last_id sim' = ps_last_id sim + added x"
    and "ps_kd_tree sim = None \<Longrightarrow> ps_kd_tree sim' = None"
    by simp_all
qed

lemma run_ops_inv:
  assumes "sim_inv sim" and "ps_last_id sim + sum_list (map added ops) < 2 ^ 31"
    and "run_ops junk ops sim = Inr sim'"
  shows "sim_inv sim' \<and> (ps_kd_tree sim = None \<longrightarrow> ps_kd_tree sim' = None)"
  using assms
proof (induction ops arbitrary: sim)
  case Nil
  then show ?case by simp
next
  case (Cons x xs)
  obtain s1 where s1: "apply_op junk x sim = Inr s1" "run_ops junk xs s1 = Inr sim'"
    using Cons.prems(3) by (cases "apply_op junk x sim") simp_all
  have "0 \<le> sum_list (map added xs)" by (rule added_nonneg)
  then have fit1: "ps_last_id sim + added x < 2 ^ 31"
    using Cons.prems(2) by simp
  note a = apply_op_inv[OF Cons.prems(1) fit1 s1(1)]
  have "ps_last_id s1 + sum_list (map added xs) < 2 ^ 31"
    using Cons.prems(2) a(2) by simp
  then have "sim_inv sim' \<and> (ps_kd_tree s1 = None \<longrightarrow> ps_kd_tree sim' = None)"
    using a(1) s1(2) by (intro Cons.IH)
  then show ?case
    using a(3) by simp
qed

lemma init_Inr:
  assumes "ParticleSimulation_init junk time_step capacity bucket_capacity None = Inr sim"
  shows "0 \<le> capacity" and "1 \<le> bucket_capacity"
proof -
  show "0 \<le> capacity"
    using assms by (cases "0 \<le> capacity")
      (simp_all add: ParticleSimulation_init_def DynamicArray_init_def np_empty_def)
  then show "1 \<le> bucket_capacity"
    using assms by (cases "1 \<le> bucket_capacity")
      (simp_all add: ParticleSimulation_init_def DynamicArray_init_def np_empty_def
        OrderedBuffer_init_def)
qed

section \<open>Idempotence of consolidation\<close>

definition sim_wf :: "psim \<Rightarrow> bool" where
  "sim_wf sim \<longleftrightarrow>
     ob_inv (ps_buffer sim) \<and>
     0 \<le> da_size (ps_array sim) \<and> da_size (ps_array sim) \<le> da_capacity (ps_array sim)"

lemma sim_inv_wf: "sim_inv sim \<Longrightarrow> sim_wf sim"
  by (simp add: sim_inv_def sim_wf_def)

lemma apply_op_wf:
  assumes wf: "sim_wf sim" and ap: "apply_op junk x sim = Inr sim'"
  shows "sim_wf sim'"
proof (cases x)
  case (AddParticle kwargs)
  let ?p = "(kwargs default_particle)\<lparr>pid := to_int32 (ps_last_id sim + 1)\<rparr>"
  obtain buf where "ob_push junk [?p] (length [?p]) (ps_buffer sim) = Inr buf" "ob_inv buf"
    using ob_push_content[of "ps_buffer sim" "[?p]" junk] wf by (auto simp: sim_wf_def)
  then show ?thesis
    using ap wf AddParticle by (auto simp: add_particle_def ob_append_def sim_wf_def)
next
  case (AddParticles count)
  obtain r where r: "add_particles junk count sim = Inr r"
    using ap AddParticles by (cases "add_particles junk count sim") simp_all
  then have pos: "0 < count" by (rule add_particles_Inr_pos)
  let ?array = "map (\<lambda>k. default_particle\<lparr>pid := to_int32 (ps_last_id sim + 1 + int k)\<rparr>) [0..<nat count]"
  have ne: "?array \<noteq> []" using pos by simp
  obtain buf where buf: "ob_push junk ?array (length ?array) (ps_buffer sim) = Inr buf" "ob_inv buf"
    using ob_push_content[OF _ ne, of "ps_buffer sim" junk] wf by (auto simp: sim_wf_def)
  have "\<not> length ?array < 1" using pos by simp
  then have ext: "ob_extend junk ?array (ps_buffer sim) = Inr buf"
    unfolding ob_extend_def using buf(1) by (simp only: if_False)
  have "ps_buffer (snd r) = buf \<and> ps_array (snd r) = ps_array sim"
    using r ne pos unfolding add_particles_def Let_def ext bind_err_Inr
    by (auto split: if_splits)
  then show ?thesis
    using ap r wf buf(2) AddParticles by (auto simp: sim_wf_def)
next
  case (SetAlive h v)
  let ?s = "mutate h (\<lambda>p. p\<lparr>alive := v\<rparr>) sim"
  have f: "pid (p\<lparr>alive := v\<rparr>) = pid p" for p :: particle by simp
  have b: "ob_map pid (ps_buffer ?s) = ob_map pid (ps_buffer sim)"
    by (rule mutate_buffer_ids) simp
  have "ob_inv (ps_buffer ?s) = ob_inv (ob_map pid (ps_buffer ?s))"
    by (simp only: ob_inv_map)
  then have "ob_inv (ps_buffer ?s) = ob_inv (ps_buffer sim)"
    unfolding b by (simp only: ob_inv_map)
  moreover have "da_size (ps_array ?s) = da_size (ps_array sim)"
    "da_capacity (ps_array ?s) = da_capacity (ps_array sim)"
    by (rule mutate_store_ids, simp)+
  ultimately show ?thesis
    using ap wf SetAlive by (auto simp: sim_wf_def set_alive_def)
next
  case Consolidate
  then show ?thesis
    using consolidate_result[of sim junk] wf ap by (auto simp: sim_wf_def)
qed

lemma run_ops_wf:
  assumes "sim_wf sim" and "run_ops junk ops sim = Inr sim'"
  shows "sim_wf sim'"
  using assms
proof (induction ops arbitrary: sim)
  case Nil
  then show ?case by simp
next
  case (Cons x xs)
  obtain s1 where s1: "apply_op junk x sim = Inr s1" "run_ops junk xs s1 = Inr sim'"
    using Cons.prems(2) by (cases "apply_op junk x sim") simp_all
  have "sim_wf s1"
    using Cons.prems(1) s1(1) by (rule apply_op_wf)
  then show ?case
    using s1(2) by (rule Cons.IH)
qed

lemma consolidate_twice:
  assumes "sim_wf sim"
  shows "(consolidate_noop sim \<longrightarrow> consolidate junk sim = Inr sim) \<and>
         (\<exists>sim'. consolidate junk sim = Inr sim' \<and> consolidate_noop sim' \<and>
                 consolidate junk sim' = Inr sim')"
proof -
  have a: "ob_inv (ps_buffer sim)" "0 \<le> da_size (ps_array sim)"
    "da_size (ps_array sim) \<le> da_capacity (ps_array sim)"
    using assms by (simp_all add: sim_wf_def)
  obtain sim' where s: "consolidate junk sim = Inr sim'"
    "da_data (ps_array sim') = filter alive (da_data (ps_array sim) @ ob_content (ps_buffer sim))"
    "ob_inv (ps_buffer sim')" "ob_len (ps_buffer sim') = 0"
    "0 \<le> da_size (ps_array sim')" "da_size (ps_array sim') \<le> da_capacity (ps_array sim')"
    "if consolidate_noop sim then sim' = sim else ps_kd_tree sim' = None"
    using consolidate_result[OF a, of junk] by blast
  have noop': "consolidate_noop sim'"
    using s(2,4) by (auto simp: consolidate_noop_def list_all_iff)
  obtain sim'' where t: "consolidate junk sim' = Inr sim''"
    "if consolidate_noop sim' then sim'' = sim' else ps_kd_tree sim'' = None"
    using consolidate_result[OF s(3,5,6), of junk] by blast
  then have "consolidate junk sim' = Inr sim'"
    using noop' by simp
  then show ?thesis
    using s(1,7) noop' by auto
qed

text \<open>
  C6. On a simulation reached from its constructor by any sequence of calls (additions,
  assignments to \<^verbatim>\<open>alive\<close>, consolidations): when the buffer is empty and every
  particle of the array is alive, \<^verbatim>\<open>consolidate\<close> returns the simulation as it is,
  storage included; and in any case a second \<^verbatim>\<open>consolidate\<close> right after a first one
  returns what the first returned.
\<close>

theorem consolidate_idempotent:
  assumes init: "ParticleSimulation_init junk time_step capacity bucket_capacity None = Inr sim0"
    and run: "run_ops junk ops sim0 = Inr sim"
  shows "(ob_len (ps_buffer sim) = 0 \<and> list_all alive (da_data (ps_array sim))
            \<longrightarrow> consolidate junk sim = Inr sim) \<and>
         (\<exists>sim'. consolidate junk sim = Inr sim' \<and> consolidate junk sim' = Inr sim')"
proof -
  obtain s0 where s0: "ParticleSimulation_init junk time_step capacity bucket_capacity None = Inr s0"
    "sim_inv s0"
    using init_inv[OF init_Inr[OF init], of junk time_step] by blast
  then have "sim_wf sim0"
    using init by (simp add: sim_inv_wf)
  then have "sim_wf sim"
    using run by (rule run_ops_wf)
  from consolidate_twice[OF this, of junk] show ?thesis
    by (auto simp: consolidate_noop_def)
qed

theorem consolidate_idempotent_witness:
  "\<exists>sim0 sim.
     ParticleSimulation_init (\<lambda>_. default_particle) (1 / 50) 4 2 None = Inr sim0 \<and>
     run_ops (\<lambda>_. default_particle)
       [AddParticle (\<lambda>p. p), AddParticle (\<lambda>p. p), AddParticle (\<lambda>p. p),
        SetAlive (InBucket 0 1) False, Consolidate] sim0 = Inr sim \<and>
     ob_len (ps_buffer sim) = 0 \<and> list_all alive (da_data (ps_array sim)) \<and>
     map pid (da_data (ps_array sim)) = [0, 2] \<and>
     consolidate (\<lambda>_. default_particle) sim = Inr sim"
proof -
  let ?junk = "\<lambda>_::nat. default_particle"
  let ?ops = "[AddParticle (\<lambda>p. p), AddParticle (\<lambda>p. p), AddParticle (\<lambda>p. p),
        SetAlive (InBucket 0 1) False, Consolidate]"
  have "case ParticleSimulation_init ?junk (1 / 50) 4 2 None of
          Inl e \<Rightarrow> False
        | Inr sim0 \<Rightarrow>
            (case run_ops ?junk ?ops sim0 of
               Inl e \<Rightarrow> False
             | Inr sim \<Rightarrow> ob_len (ps_buffer sim) = 0 \<and> list_all alive (da_data (ps_array sim)) \<and>
                   map pid (da_data (ps_array sim)) = [0, 2])"
    by code_simp
  then obtain sim0 sim where
    init: "ParticleSimulation_init ?junk (1 / 50) 4 2 None = Inr sim0"
    and run: "run_ops ?junk ?ops sim0 = Inr sim"
    and c: "ob_len (ps_buffer sim) = 0" "list_all alive (da_data (ps_array sim))"
      "map pid (da_data (ps_array sim)) = [0, 2]"
    by (auto split: sum.splits)
  from consolidate_idempotent[OF init run] c init run show ?thesis
    by auto
qed

section \<open>Looking a particle up\<close>

lemma bisect_left_spec:
  assumes "sorted a" and "lo \<le> hi" and "hi \<le> length a"
    and "\<forall>k<lo. a ! k < key" and "\<forall>k\<ge>hi. k < length a \<longrightarrow> key \<le> a ! k"
  shows "lo \<le> bisect_left a key lo hi \<and> bisect_left a key lo hi \<le> hi \<and>
         (\<forall>k<bisect_left a key lo hi. a ! k < key) \<and>
         (\<forall>k\<ge>bisect_left a key lo hi. k < length a \<longrightarrow> key \<le> a ! k)"
  using assms
proof (induction a key lo hi rule: bisect_left.induct)
  case (1 a key lo hi)
  show ?case
  proof (cases "lo < hi")
    case False
    then have "bisect_left a key lo hi = lo" by simp
    moreover have "lo = hi" using False "1.prems"(2) by simp
    ultimately show ?thesis using "1.prems" by simp
  next
    case True
    define mid where "mid = lo + (hi - lo) div 2"
    have mid: "lo \<le> mid" "mid < hi" "mid < length a"
      using True "1.prems"(3) by (simp_all add: mid_def)
    show ?thesis
    proof (cases "a ! mid < key")
      case less: True
      have eq: "bisect_left a key lo hi = bisect_left a key (mid + 1) hi"
        using True less by (subst bisect_left.simps) (simp add: mid_def Let_def)
      have low: "\<forall>k<mid + 1. a ! k < key"
      proof (intro allI impI)
        fix k assume "k < mid + 1"
        then have "a ! k \<le> a ! mid"
          using "1.prems"(1) mid(3) by (intro sorted_nth_mono) simp_all
        with less show "a ! k < key" by simp
      qed
      have "mid + 1 \<le> bisect_left a key (mid + 1) hi \<and> bisect_left a key (mid + 1) hi \<le> hi \<and>
         (\<forall>k<bisect_left a key (mid + 1) hi. a ! k < key) \<and>
         (\<forall>k\<ge>bisect_left a key (mid + 1) hi. k < length a \<longrightarrow> key \<le> a ! k)"
        using "1.IH"(1)[OF True mid_def less "1.prems"(1) _ "1.prems"(3) low "1.prems"(5)] mid(2)
        by simp
      then show ?thesis
        unfolding eq using mid(1) by auto
    next
      case ge: False
      have eq: "bisect_left a key lo hi = bisect_left a key lo mid"
        using True ge by (subst bisect_left.simps) (simp add: mid_def Let_def)
      have high: "\<forall>k\<ge>mid. k < length a \<longrightarrow> key \<le> a ! k"
      proof (intro allI impI)
        fix k assume "mid \<le> k" "k < length a"
        then have "a ! mid \<le> a ! k"
          using "1.prems"(1) by (intro sorted_nth_mono) simp_all
        with ge show "key \<le> a ! k" by simp
      qed
      have "mid \<le> length a" using mid(3) by simp
      then have "lo \<le> bisect_left a key lo mid \<and> bisect_left a key lo mid \<le> mid \<and>
         (\<forall>k<bisect_left a key lo mid. a ! k < key) \<and>
         (\<forall>k\<ge>bisect_left a key lo mid. k < length a \<longrightarrow> key \<le> a ! k)"
        using "1.IH"(2)[OF True mid_def ge "1.prems"(1) mid(1) _ "1.prems"(4) high]
        by simp
      then show ?thesis
        unfolding eq using mid(2) by auto
    qed
  qed
qed

lemma searchsorted_spec:
  assumes "sorted a"
  shows "searchsorted a key \<le> length a"
    and "\<forall>k<searchsorted a key. a ! k < key"
    and "\<forall>k\<ge>searchsorted a key. k < length a \<longrightarrow> key \<le> a ! k"
  using bisect_left_spec[OF assms, of 0 "length a" key] by (simp_all add: searchsorted_def)

lemma searchsorted_found:
  assumes "sorted a"
  shows "(searchsorted a key < length a \<and> a ! searchsorted a key = key) \<longleftrightarrow> key \<in> set a"
proof
  assume "searchsorted a key < length a \<and> a ! searchsorted a key = key"
  then show "key \<in> set a" by (metis nth_mem)
next
  assume "key \<in> set a"
  then obtain k where k: "k < length a" "a ! k = key"
    by (auto simp: in_set_conv_nth)
  let ?r = "searchsorted a key"
  have "\<not> k < ?r"
    using searchsorted_spec(2)[OF assms, of key] k(2) by auto
  then have rk: "?r \<le> k" by simp
  then have r: "?r < length a" using k(1) by simp
  have "key \<le> a ! ?r"
    using searchsorted_spec(3)[OF assms, of key] r by simp
  moreover have "a ! ?r \<le> a ! k"
    using assms rk k(1) by (rule sorted_nth_mono)
  ultimately show "?r < length a \<and> a ! ?r = key"
    using r k(2) by simp
qed


lemma get_particle_sorted:
  assumes srt: "sorted (map pid (da_data (ps_array sim)))"
    and sz: "0 \<le> da_size (ps_array sim)" "da_size (ps_array sim) \<le> da_capacity (ps_array sim)"
    and rng: "- (2 ^ 31) \<le> id'" "id' < 2 ^ 31"
  shows "(id' \<in> pid ` set (da_data (ps_array sim)) \<longrightarrow>
            (\<exists>idx. get_particle sim id' = (Inr (InStore idx), sim) \<and>
                   idx < length (da_data (ps_array sim)) \<and>
                   pid (da_data (ps_array sim) ! idx) = id')) \<and>
         (id' \<notin> pid ` set (da_data (ps_array sim)) \<longrightarrow>
            get_particle sim id' = (Inl ValueError, sim))"
proof -
  let ?data = "da_data (ps_array sim)"
  let ?ids = "map pid ?data"
  let ?idx = "searchsorted ?ids id'"
  have id32: "to_int32 id' = id'"
    using rng by (rule to_int32_id)
  have len: "int (length ?data) = da_size (ps_array sim)"
    using sz by (simp add: da_data_def py_upto_def da_capacity_def)
  have lt: "int ?idx < da_size (ps_array sim) \<longleftrightarrow> ?idx < length ?ids"
    unfolding len[symmetric] by simp
  have found: "(?idx < length ?ids \<and> ?ids ! ?idx = id') \<longleftrightarrow> id' \<in> set ?ids"
    using srt by (rule searchsorted_found)
  have nth: "?idx < length ?ids \<Longrightarrow> ?ids ! ?idx = pid (?data ! ?idx)"
    by simp
  have gp: "get_particle sim id' =
      (if int ?idx < da_size (ps_array sim) \<and> pid (?data ! ?idx) = id'
       then (Inr (InStore ?idx), sim) else (Inl ValueError, sim))"
    unfolding get_particle_def Let_def id32 ..
  show ?thesis
  proof (cases "id' \<in> set ?ids")
    case True
    then have "?idx < length ?ids" "?ids ! ?idx = id'"
      using found by simp_all
    then have "int ?idx < da_size (ps_array sim) \<and> pid (?data ! ?idx) = id'" "?idx < length ?data"
      using lt nth by simp_all
    then show ?thesis
      using True gp by auto
  next
    case False
    then have "\<not> (?idx < length ?ids \<and> ?ids ! ?idx = id')"
      using found by simp
    then have "\<not> (int ?idx < da_size (ps_array sim) \<and> pid (?data ! ?idx) = id')"
      using lt nth by auto
    then show ?thesis
      using False gp by auto
  qed
qed

text \<open>
  C4. On a simulation reached from its constructor by a sequence of calls that takes at
  most \<open>2^31\<close> ids, and for every id of the \<^verbatim>\<open>Int32\<close> range: \<^verbatim>\<open>get_particle\<close> returns
  a handle to a slot of the array whose particle has that id when the array holds such a
  particle; it raises (\<^verbatim>\<open>ValueError\<close>, the source's not-found error) exactly when the
  array holds none, in particular when the id is that of a particle still in the buffer;
  and in every case the simulation is left as it was.
\<close>

theorem get_particle_store_only:
  assumes init: "ParticleSimulation_init junk time_step capacity bucket_capacity None = Inr sim0"
    and run: "run_ops junk ops sim0 = Inr sim"
    and ids: "sum_list (map added ops) \<le> 2 ^ 31"
    and rng: "- (2 ^ 31) \<le> id'" "id' < 2 ^ 31"
  shows "\<exists>chunks. ob_chunks (ps_buffer sim) = Inr chunks \<and>
     (id' \<in> pid ` set (da_data (ps_array sim)) \<longrightarrow>
        (\<exists>idx. get_particle sim id' = (Inr (InStore idx), sim) \<and>
               idx < length (da_data (ps_array sim)) \<and>
               pid (da_data (ps_array sim) ! idx) = id')) \<and>
     (id' \<notin> pid ` set (da_data (ps_array sim)) \<longrightarrow>
        get_particle sim id' = (Inl ValueError, sim)) \<and>
     (id' \<in> pid ` set (concat chunks) \<longrightarrow> get_particle sim id' = (Inl ValueError, sim)) \<and>
     snd (get_particle sim id') = sim"
proof -
  obtain s0 where s0: "ParticleSimulation_init junk time_step capacity bucket_capacity None = Inr s0"
    "sim_inv s0" "ps_last_id s0 = - 1"
    using init_inv[OF init_Inr[OF init], of junk time_step] by blast
  then have eq: "s0 = sim0" using init by simp
  have "ps_last_id sim0 + sum_list (map added ops) < 2 ^ 31"
    using ids s0(3) eq by simp
  from run_ops_inv[OF _ this run] s0 eq have inv: "sim_inv sim"
    by simp
  obtain chunks where chunks: "ob_chunks (ps_buffer sim) = Inr chunks"
    "concat chunks = ob_content (ps_buffer sim)"
    using ob_chunks_content inv by (auto simp: sim_inv_def)
  let ?data = "da_data (ps_array sim)"
  have strict: "sorted_wrt (<) (map pid ?data @ map pid (concat chunks))"
    using inv chunks(2) by (simp add: sim_inv_def sim_ids_def)
  then have "sorted_wrt (<) (map pid ?data)"
    by (simp add: sorted_wrt_append)
  then have srt: "sorted (map pid ?data)"
    by (rule strict_sorted_imp_sorted)
  have sz: "0 \<le> da_size (ps_array sim)" "da_size (ps_array sim) \<le> da_capacity (ps_array sim)"
    using inv by (simp_all add: sim_inv_def)
  note gp = get_particle_sorted[OF srt sz rng]
  have "\<forall>x\<in>set (map pid ?data). \<forall>y\<in>set (map pid (concat chunks)). x < y"
    using strict unfolding sorted_wrt_append by blast
  then have disj: "id' \<in> pid ` set (concat chunks) \<Longrightarrow> id' \<notin> pid ` set ?data"
    by (metis less_irrefl list.set_map)
  have "snd (get_particle sim id') = sim"
    by (simp add: get_particle_def Let_def)
  then show ?thesis
    using chunks(1) gp disj by blast
qed

theorem get_particle_store_only_witness:
  "\<exists>sim0 sim.
     ParticleSimulation_init (\<lambda>_. default_particle) (1 / 50) 4 2 None = Inr sim0 \<and>
     run_ops (\<lambda>_. default_particle)
       [AddParticle (\<lambda>p. p), AddParticle (\<lambda>p. p), Consolidate,
        AddParticle (\<lambda>p. p), AddParticle (\<lambda>p. p)] sim0 = Inr sim \<and>
     map pid (da_data (ps_array sim)) = [0, 1] \<and>
     ob_chunks (ps_buffer sim)
       = Inr [[default_particle\<lparr>pid := 2\<rparr>, default_particle\<lparr>pid := 3\<rparr>]] \<and>
     get_particle sim 1 = (Inr (InStore 1), sim) \<and>
     get_particle sim 2 = (Inl ValueError, sim)"
proof -
  let ?junk = "\<lambda>_::nat. default_particle"
  let ?ops = "[AddParticle (\<lambda>p. p), AddParticle (\<lambda>p. p), Consolidate,
        AddParticle (\<lambda>p. p), AddParticle (\<lambda>p. p)]"
  have "case ParticleSimulation_init ?junk (1 / 50) 4 2 None of
          Inl e \<Rightarrow> False
        | Inr sim0 \<Rightarrow>
            (case run_ops ?junk ?ops sim0 of
               Inl e \<Rightarrow> False
             | Inr sim \<Rightarrow> map pid (da_data (ps_array sim)) = [0, 1] \<and>
                 ob_chunks (ps_buffer sim)
                   = Inr [[default_particle\<lparr>pid := 2\<rparr>, default_particle\<lparr>pid := 3\<rparr>]] \<and>
                 fst (get_particle sim 1) = Inr (InStore 1))"
    by code_simp
  then obtain sim0 sim where
    init: "ParticleSimulation_init ?junk (1 / 50) 4 2 None = Inr sim0"
    and run: "run_ops ?junk ?ops sim0 = Inr sim"
    and c: "map pid (da_data (ps_array sim)) = [0, 1]"
      "ob_chunks (ps_buffer sim)
         = Inr [[default_particle\<lparr>pid := 2\<rparr>, default_particle\<lparr>pid := 3\<rparr>]]"
      "fst (get_particle sim 1) = Inr (InStore 1)"
    by (auto split: sum.splits)
  have ids: "sum_list (map added ?ops) \<le> 2 ^ 31"
    by simp
  have r: "- (2 ^ 31) \<le> (2::int)" "(2::int) < 2 ^ 31"
    by simp_all
  have in_buffer: "(2::int) \<in> pid ` set (concat [[default_particle\<lparr>pid := 2\<rparr>, default_particle\<lparr>pid := 3\<rparr>]])"
    by simp
  from get_particle_store_only[OF init run ids r] c(2) in_buffer
  have "get_particle sim 2 = (Inl ValueError, sim)"
    by auto
  moreover have "get_particle sim 1 = (Inr (InStore 1), sim)"
    using c(3) by (simp add: get_particle_def Let_def split: if_splits)
  ultimately show ?thesis
    using init run c by auto
qed

section \<open>The step of the simulation\<close>

text \<open>
  The integration as the specification words it, for one particle:
  \<^verbatim>\<open>velocity += force / mass * time_step\<close>, then \<^verbatim>\<open>position += velocity * time_step\<close>.
\<close>

definition euler :: "real \<Rightarrow> particle \<Rightarrow> particle" where
  "euler time_step p =
     (let v = (fst (velocity p) + fst (force p) / mass p * time_step,
               snd (velocity p) + snd (force p) / mass p * time_step)
      in p\<lparr>velocity := v,
           position := (fst (position p) + fst v * time_step,
                        snd (position p) + snd v * time_step)\<rparr>)"

text \<open>
  The integration of a simulation: every particle of the array's data is integrated and
  its force is set to zero; nothing else changes.
\<close>

definition integrate :: "psim \<Rightarrow> psim" where
  "integrate sim =
     sim\<lparr>ps_array := da_write (ps_array sim)
            (map (\<lambda>p. (euler (ps_time_step sim) p)\<lparr>force := (0, 0)\<rparr>) (da_data (ps_array sim)))\<rparr>"

text \<open>
  The step as the claim words it: the consolidations follow the callbacks whether or not
  there is a callback, so that every alive particle is in the array when it is integrated.
\<close>

definition step_as_claimed ::
  "(nat \<Rightarrow> particle) \<Rightarrow> callback option \<Rightarrow> callback option \<Rightarrow> psim \<Rightarrow> error + psim" where
  "step_as_claimed junk presolve_callback postsolve_callback sim =
     bind_err (case presolve_callback of
                 None \<Rightarrow> Inr (sim\<lparr>ps_time := ps_time sim + ps_time_step sim\<rparr>)
               | Some f \<Rightarrow> f (sim\<lparr>ps_time := ps_time sim + ps_time_step sim\<rparr>)) (\<lambda>sim1.
       bind_err (consolidate junk sim1) (\<lambda>sim2.
         bind_err (case postsolve_callback of
                     None \<Rightarrow> Inr (integrate sim2)
                   | Some f \<Rightarrow> f (integrate sim2)) (consolidate junk)))"

lemma solve1_euler: "solve1 time_step p = euler time_step p"
  by (simp add: solve1_def euler_def)

lemma da_data_write:
  "da_data (da_write a (map g (da_data a))) = map g (da_data a)"
proof -
  define k where "k = (if da_size a < 0 then length (da_array a) - nat (- da_size a)
                       else nat (da_size a))"
  have d: "da_data a = take k (da_array a)"
    by (simp add: da_data_def py_upto_def k_def)
  have len: "length (map g (take k (da_array a)) @ drop (length (take k (da_array a))) (da_array a))
             = length (da_array a)"
    by simp
  have "da_data (da_write a (map g (da_data a)))
      = take k (map g (take k (da_array a)) @ drop (length (take k (da_array a))) (da_array a))"
    unfolding d by (simp add: da_data_def py_upto_def da_write_def k_def)
  also have "\<dots> = map g (take k (da_array a))"
    by (cases "k \<le> length (da_array a)") simp_all
  finally show ?thesis
    unfolding d .
qed

lemma integrate_effect:
  "da_data (ps_array (integrate sim))
     = map (\<lambda>p. (euler (ps_time_step sim) p)\<lparr>force := (0, 0)\<rparr>) (da_data (ps_array sim))"
  "da_size (ps_array (integrate sim)) = da_size (ps_array sim)"
  "da_capacity (ps_array (integrate sim)) = da_capacity (ps_array sim)"
  "ps_buffer (integrate sim) = ps_buffer sim"
  "ps_time (integrate sim) = ps_time sim"
  "ps_time_step (integrate sim) = ps_time_step sim"
  "ps_last_id (integrate sim) = ps_last_id sim"
  "ps_kd_tree (integrate sim) = ps_kd_tree sim"
  by (simp_all add: integrate_def da_data_write) (simp_all add: da_write_def da_capacity_def da_data_def py_upto_def)

text \<open>
  C3 as the code has it. A step adds the time step to the time; runs the presolve
  callback, if there is one, and consolidates after it (and only then); integrates every
  particle of the array's data, alive or not, with the semi-implicit Euler scheme, and
  sets the force of each to zero, leaving the buffer and everything else as they are;
  then runs the postsolve callback, if there is one, and consolidates after it (and only
  then). A division by a mass of zero, which the floating-point arithmetic answers with
  an infinity or a NaN, is outside the model.
\<close>

theorem step_in_order:
  "step junk presolve_callback postsolve_callback sim =
     bind_err (run_callback junk presolve_callback
                 (sim\<lparr>ps_time := ps_time sim + ps_time_step sim\<rparr>)) (\<lambda>sim2.
       run_callback junk postsolve_callback (integrate sim2)) \<and>
   run_callback junk None sim = Inr sim \<and>
   run_callback junk (Some f) sim = bind_err (f sim) (consolidate junk) \<and>
   da_data (ps_array (integrate sim))
     = map (\<lambda>p. (euler (ps_time_step sim) p)\<lparr>force := (0, 0)\<rparr>) (da_data (ps_array sim)) \<and>
   da_size (ps_array (integrate sim)) = da_size (ps_array sim) \<and>
   da_capacity (ps_array (integrate sim)) = da_capacity (ps_array sim) \<and>
   ps_buffer (integrate sim) = ps_buffer sim \<and>
   ps_time (integrate sim) = ps_time sim \<and>
   ps_time_step (integrate sim) = ps_time_step sim \<and>
   ps_last_id (integrate sim) = ps_last_id sim \<and>
   ps_kd_tree (integrate sim) = ps_kd_tree sim"
proof -
  have "zero_force (solve xs dt) = map (\<lambda>p. (euler dt p)\<lparr>force := (0, 0)\<rparr>) xs" for xs dt
    by (simp add: zero_force_def solve_def solve1_euler)
  then have "step junk presolve_callback postsolve_callback sim =
     bind_err (run_callback junk presolve_callback
                 (sim\<lparr>ps_time := ps_time sim + ps_time_step sim\<rparr>)) (\<lambda>sim2.
       run_callback junk postsolve_callback (integrate sim2))"
    by (simp add: step_def integrate_def Let_def)
  then show ?thesis
    by (simp add: integrate_effect run_callback_def)
qed

theorem step_in_order_witness:
  "\<exists>sim0 sim sim'.
     ParticleSimulation_init (\<lambda>_. default_particle) (1 / 2) 4 2 None = Inr sim0 \<and>
     run_ops (\<lambda>_. default_particle)
       [AddParticle (\<lambda>p. p\<lparr>force := (1, 0)\<rparr>), AddParticle (\<lambda>p. p\<lparr>force := (2, 0)\<rparr>),
        Consolidate, AddParticle (\<lambda>p. p\<lparr>force := (3, 0)\<rparr>)] sim0 = Inr sim \<and>
     step (\<lambda>_. default_particle) None None sim = Inr sim' \<and>
     ps_time sim' = 1 / 2 \<and>
     map velocity (da_data (ps_array sim')) = [(1 / 2, 0), (1, 0)] \<and>
     map position (da_data (ps_array sim')) = [(1 / 4, 0), (1 / 2, 0)] \<and>
     map force (da_data (ps_array sim')) = [(0, 0), (0, 0)] \<and>
     ps_buffer sim' = ps_buffer sim"
proof -
  let ?junk = "\<lambda>_::nat. default_particle"
  let ?ops = "[AddParticle (\<lambda>p. p\<lparr>force := (1, 0)\<rparr>), AddParticle (\<lambda>p. p\<lparr>force := (2, 0)\<rparr>),
        Consolidate, AddParticle (\<lambda>p. p\<lparr>force := (3, 0)\<rparr>)]"
  have "case ParticleSimulation_init ?junk (1 / 2) 4 2 None of
          Inl e \<Rightarrow> False
        | Inr sim0 \<Rightarrow>
            (case run_ops ?junk ?ops sim0 of
               Inl e \<Rightarrow> False
             | Inr sim \<Rightarrow>
                 ps_time_step sim = 1 / 2 \<and> ps_time sim = 0 \<and>
                 map velocity (da_data (ps_array sim)) = [(0, 0), (0, 0)] \<and>
                 map position (da_data (ps_array sim)) = [(0, 0), (0, 0)] \<and>
                 map force (da_data (ps_array sim)) = [(1, 0), (2, 0)] \<and>
                 map mass (da_data (ps_array sim)) = [1, 1])"
    by code_simp
  then obtain sim0 sim where
    init: "ParticleSimulation_init ?junk (1 / 2) 4 2 None = Inr sim0"
    and run: "run_ops ?junk ?ops sim0 = Inr sim"
    and c: "ps_time_step sim = 1 / 2" "ps_time sim = 0"
      "map velocity (da_data (ps_array sim)) = [(0, 0), (0, 0)]"
      "map position (da_data (ps_array sim)) = [(0, 0), (0, 0)]"
      "map force (da_data (ps_array sim)) = [(1, 0), (2, 0)]"
      "map mass (da_data (ps_array sim)) = [1, 1]"
    by (auto split: sum.splits)
  let ?tick = "sim\<lparr>ps_time := ps_time sim + ps_time_step sim\<rparr>"
  from c(3) obtain p q where pq: "da_data (ps_array sim) = [p, q]"
    by (auto simp: map_eq_Cons_conv)
  have st: "step ?junk None None sim = Inr (integrate ?tick)"
    using step_in_order[of ?junk None None sim] step_in_order[of ?junk None None ?tick]
      step_in_order[of ?junk None None "integrate ?tick"]
    by simp
  have "da_data (ps_array (integrate ?tick))
      = map (\<lambda>p. (euler (ps_time_step ?tick) p)\<lparr>force := (0, 0)\<rparr>) (da_data (ps_array ?tick))"
    by (rule integrate_effect)
  moreover have "ps_time_step ?tick = 1 / 2" "da_data (ps_array ?tick) = [p, q]"
    by (simp_all add: pq c(1))
  ultimately have d: "da_data (ps_array (integrate ?tick))
      = [(euler (1 / 2) p)\<lparr>force := (0, 0)\<rparr>, (euler (1 / 2) q)\<lparr>force := (0, 0)\<rparr>]"
    by (simp only: list.map)
  have v: "map velocity (da_data (ps_array (integrate ?tick))) = [(1 / 2, 0), (1, 0)]"
    "map position (da_data (ps_array (integrate ?tick))) = [(1 / 4, 0), (1 / 2, 0)]"
    "map force (da_data (ps_array (integrate ?tick))) = [(0, 0), (0, 0)]"
    unfolding d using c(3-6) pq by (simp_all add: euler_def Let_def)
  have t: "ps_time (integrate ?tick) = 1 / 2" "ps_buffer (integrate ?tick) = ps_buffer sim"
    by (simp_all add: integrate_effect c(1,2))
  show ?thesis
    by (rule exI[where x = sim0], rule exI[where x = sim],
        rule exI[where x = "integrate ?tick"]) (simp only: init run st v t simp_thms)
qed

theorem step_pending_counterexample:
  "\<exists>sim0 sim a b.
     ParticleSimulation_init (\<lambda>_. default_particle) (1 / 2) 4 2 None = Inr sim0 \<and>
     run_ops (\<lambda>_. default_particle)
       [AddParticle (\<lambda>p. p\<lparr>force := (1, 0)\<rparr>), AddParticle (\<lambda>p. p\<lparr>force := (2, 0)\<rparr>),
        Consolidate, AddParticle (\<lambda>p. p\<lparr>force := (3, 0)\<rparr>)] sim0 = Inr sim \<and>
     step (\<lambda>_. default_particle) None None sim = Inr a \<and>
     step_as_claimed (\<lambda>_. default_particle) None None sim = Inr b \<and>
     map pid (da_data (ps_array a)) = [0, 1] \<and>
     ob_chunks (ps_buffer a)
       = Inr [[default_particle\<lparr>pid := 2, force := (3, 0)\<rparr>]] \<and>
     map pid (da_data (ps_array b)) = [0, 1, 2] \<and>
     map force (da_data (ps_array b)) = [(0, 0), (0, 0), (0, 0)] \<and>
     ob_chunks (ps_buffer b) = Inr [] \<and>
     a \<noteq> b"
proof -
  let ?junk = "\<lambda>_::nat. default_particle"
  let ?ops = "[AddParticle (\<lambda>p. p\<lparr>force := (1, 0)\<rparr>), AddParticle (\<lambda>p. p\<lparr>force := (2, 0)\<rparr>),
        Consolidate, AddParticle (\<lambda>p. p\<lparr>force := (3, 0)\<rparr>)]"
  have "case ParticleSimulation_init ?junk (1 / 2) 4 2 None of
          Inl e \<Rightarrow> False
        | Inr sim0 \<Rightarrow>
            (case run_ops ?junk ?ops sim0 of
               Inl e \<Rightarrow> False
             | Inr sim \<Rightarrow>
                (case step ?junk None None sim of
                   Inl e \<Rightarrow> False
                 | Inr a \<Rightarrow>
                    (case step_as_claimed ?junk None None sim of
                       Inl e \<Rightarrow> False
                     | Inr b \<Rightarrow>
                         map pid (da_data (ps_array a)) = [0, 1] \<and>
                         ob_chunks (ps_buffer a)
                           = Inr [[default_particle\<lparr>pid := 2, force := (3, 0)\<rparr>]] \<and>
                         map pid (da_data (ps_array b)) = [0, 1, 2] \<and>
                         map force (da_data (ps_array b)) = [(0, 0), (0, 0), (0, 0)] \<and>
                         ob_chunks (ps_buffer b) = Inr [])))"
    by code_simp
  then obtain sim0 sim a b where f:
    "ParticleSimulation_init ?junk (1 / 2) 4 2 None = Inr sim0"
    "run_ops ?junk ?ops sim0 = Inr sim"
    "step ?junk None None sim = Inr a"
    "step_as_claimed ?junk None None sim = Inr b"
    "map pid (da_data (ps_array a)) = [0, 1]"
    "ob_chunks (ps_buffer a) = Inr [[default_particle\<lparr>pid := 2, force := (3, 0)\<rparr>]]"
    "map pid (da_data (ps_array b)) = [0, 1, 2]"
    "map force (da_data (ps_array b)) = [(0, 0), (0, 0), (0, 0)]"
    "ob_chunks (ps_buffer b) = Inr []"
    by (auto split: sum.splits)
  have ne: "a \<noteq> b"
    using f(5,7) by auto
  show ?thesis
    by (rule exI[where x = sim0], rule exI[where x = sim], rule exI[where x = a],
        rule exI[where x = b]) (simp only: f ne simp_thms)
qed

section \<open>The states of a simulation and the cached spatial index\<close>

lemma KDTree_init_bad_bucket_size:
  "bucket_size < 1 \<Longrightarrow> KDTree_init fuel data bucket_size = Some (Inl ValueError)"
  by (simp add: KDTree_init_def)

lemma KDTree_init_empty:
  "1 \<le> bucket_size \<Longrightarrow> KDTree_init fuel [] bucket_size
     = (if fuel = 0 then None else Some (Inl ValueError))"
  by (cases fuel) (simp_all add: KDTree_init_def np_take_def)

lemma KDTree_init_Inr_nonempty:
  assumes "KDTree_init fuel data bucket_size = Some (Inr tree)"
  shows "data \<noteq> []"
proof
  assume "data = []"
  then show False
    using assms KDTree_init_empty[of bucket_size fuel] KDTree_init_bad_bucket_size[of bucket_size fuel "[]"]
    by (cases "bucket_size < 1") (auto split: if_splits)
qed

text \<open>
  The states of a simulation: the state its constructor leaves, and every state reached
  from one by a call of the simulation's interface, by an in-place mutation of a
  particle's attributes other than the read-only id, by a neighbour query that returns,
  or by one of the two silent steps of \<^verbatim>\<open>step\<close> (the clock tick, the integration). The
  callbacks are code of the client, made of such calls.
\<close>

inductive reachable :: "(nat \<Rightarrow> particle) \<Rightarrow> psim \<Rightarrow> bool" for junk where
  created: "ParticleSimulation_init junk time_step capacity bucket_capacity None = Inr sim
    \<Longrightarrow> reachable junk sim"
| called: "reachable junk sim \<Longrightarrow> apply_op junk x sim = Inr sim' \<Longrightarrow> reachable junk sim'"
| mutated: "reachable junk sim \<Longrightarrow> (\<forall>p. pid (f p) = pid p) \<Longrightarrow> reachable junk (mutate h f sim)"
| queried: "reachable junk sim \<Longrightarrow>
     get_neighbour_particles fuel sim p count radius do_sort = Some (Inr (neighbours, sim'))
    \<Longrightarrow> reachable junk sim'"
| ticked: "reachable junk sim \<Longrightarrow> reachable junk (sim\<lparr>ps_time := ps_time sim + ps_time_step sim\<rparr>)"
| integrated: "reachable junk sim \<Longrightarrow> reachable junk (integrate sim)"

definition cache_inv :: "psim \<Rightarrow> bool" where
  "cache_inv sim \<longleftrightarrow> sim_wf sim \<and> (ps_kd_tree sim = None \<or> da_data (ps_array sim) \<noteq> [])"

lemma mutate_wf:
  assumes "sim_wf sim" and "\<And>p. pid (f p) = pid p"
  shows "sim_wf (mutate h f sim)"
proof -
  let ?s = "mutate h f sim"
  have b: "ob_map pid (ps_buffer ?s) = ob_map pid (ps_buffer sim)"
    using assms(2) by (rule mutate_buffer_ids)
  have "ob_inv (ps_buffer ?s) = ob_inv (ob_map pid (ps_buffer ?s))"
    by (simp only: ob_inv_map)
  then have "ob_inv (ps_buffer ?s) = ob_inv (ps_buffer sim)"
    unfolding b by (simp only: ob_inv_map)
  moreover have "da_size (ps_array ?s) = da_size (ps_array sim)"
    "da_capacity (ps_array ?s) = da_capacity (ps_array sim)"
    using assms(2) by (rule mutate_store_ids)+
  ultimately show ?thesis
    using assms(1) by (simp add: sim_wf_def)
qed

lemma mutate_cache_inv:
  assumes "cache_inv sim" and "\<And>p. pid (f p) = pid p"
  shows "cache_inv (mutate h f sim)"
proof -
  have "map pid (da_data (ps_array (mutate h f sim))) = map pid (da_data (ps_array sim))"
    using assms(2) by (rule mutate_store_ids)
  then have "da_data (ps_array (mutate h f sim)) = [] \<longleftrightarrow> da_data (ps_array sim) = []"
    by (metis map_is_Nil_conv)
  moreover have "ps_kd_tree (mutate h f sim) = ps_kd_tree sim"
    by (cases h) (simp_all add: mutate_def)
  ultimately show ?thesis
    using assms mutate_wf[OF _ assms(2), of sim h] by (simp add: cache_inv_def)
qed

lemma add_particle_frame:
  assumes "add_particle junk kwargs sim = Inr (h, sim')"
  shows "ps_array sim' = ps_array sim" and "ps_kd_tree sim' = ps_kd_tree sim"
  using assms by (auto simp: add_particle_def Let_def bind_err_eq_Inr)

lemma add_particles_frame:
  assumes "add_particles junk count sim = Inr (hs, sim')"
  shows "ps_array sim' = ps_array sim" and "ps_kd_tree sim' = ps_kd_tree sim"
  using assms by (auto simp: add_particles_def Let_def bind_err_eq_Inr split: if_splits)

lemma apply_op_cache_inv:
  assumes inv: "cache_inv sim" and ap: "apply_op junk x sim = Inr sim'"
  shows "cache_inv sim'"
proof -
  have wf: "sim_wf sim'"
    using inv ap by (auto simp: cache_inv_def intro: apply_op_wf)
  have "ps_kd_tree sim' = None \<or> da_data (ps_array sim') \<noteq> []"
  proof (cases x)
    case (AddParticle kwargs)
    then obtain h where "add_particle junk kwargs sim = Inr (h, sim')"
      using ap by (auto simp: bind_err_eq_Inr)
    from add_particle_frame[OF this] inv show ?thesis
      by (simp add: cache_inv_def)
  next
    case (AddParticles count)
    then obtain hs where "add_particles junk count sim = Inr (hs, sim')"
      using ap by (auto simp: bind_err_eq_Inr)
    from add_particles_frame[OF this] inv show ?thesis
      by (simp add: cache_inv_def)
  next
    case (SetAlive h v)
    have "cache_inv (mutate h (\<lambda>p. p\<lparr>alive := v\<rparr>) sim)"
      using inv by (rule mutate_cache_inv) simp
    then show ?thesis
      using ap SetAlive by (simp add: set_alive_def cache_inv_def)
  next
    case Consolidate
    have "ob_inv (ps_buffer sim)" "0 \<le> da_size (ps_array sim)"
      "da_size (ps_array sim) \<le> da_capacity (ps_array sim)"
      using inv by (simp_all add: cache_inv_def sim_wf_def)
    from consolidate_result[OF this, of junk] ap Consolidate inv show ?thesis
      by (auto simp: cache_inv_def split: if_splits)
  qed
  with wf show ?thesis
    by (simp add: cache_inv_def)
qed

lemma query_cache_inv:
  assumes inv: "cache_inv sim"
    and q: "get_neighbour_particles fuel sim p count radius do_sort = Some (Inr (neighbours, sim'))"
  shows "cache_inv sim'"
proof -
  obtain tree where tree:
    "(case ps_kd_tree sim of
        None \<Rightarrow> KDTree_init fuel (map position (da_data (ps_array sim))) 128
      | Some tree \<Rightarrow> Some (Inr tree)) = Some (Inr tree)"
    "sim' = sim\<lparr>ps_kd_tree := Some tree\<rparr>"
    using q unfolding get_neighbour_particles_def
    by (auto split: option.splits sum.splits)
  have "da_data (ps_array sim) \<noteq> []"
  proof (cases "ps_kd_tree sim")
    case None
    then have "KDTree_init fuel (map position (da_data (ps_array sim))) 128 = Some (Inr tree)"
      using tree(1) by simp
    then have "map position (da_data (ps_array sim)) \<noteq> []"
      by (rule KDTree_init_Inr_nonempty)
    then show ?thesis by simp
  next
    case (Some t)
    then show ?thesis using inv by (simp add: cache_inv_def)
  qed
  then show ?thesis
    using inv tree(2) by (simp add: cache_inv_def sim_wf_def)
qed

lemma reachable_cache_inv: "reachable junk sim \<Longrightarrow> cache_inv sim"
proof (induction rule: reachable.induct)
  case (created time_step capacity bucket_capacity sim)
  obtain s0 where "ParticleSimulation_init junk time_step capacity bucket_capacity None = Inr s0"
    "sim_inv s0" "ps_kd_tree s0 = None"
    using init_inv[OF init_Inr[OF created], of junk time_step] by blast
  then show ?case
    using created by (simp add: cache_inv_def sim_inv_wf)
next
  case (called sim x sim')
  then show ?case by (auto intro: apply_op_cache_inv)
next
  case (mutated sim f h)
  then show ?case by (auto intro: mutate_cache_inv)
next
  case (queried sim fuel p count radius do_sort neighbours sim')
  then show ?case by (auto intro: query_cache_inv)
next
  case (ticked sim)
  then show ?case by (simp add: cache_inv_def sim_wf_def)
next
  case (integrated sim)
  then show ?case
    by (simp add: cache_inv_def sim_wf_def integrate_effect)
qed

text \<open>
  C10. In every state of a simulation whose array holds no particle, no spatial index is
  cached, and \<^verbatim>\<open>get_neighbour_particles\<close> raises for every query (every point, count,
  radius and sort flag): it builds the tree first, and the build takes the minimum of
  the coordinates of no point at all, which NumPy refuses with \<^verbatim>\<open>ValueError\<close>. (The
  fuel is the model's bound on the iterations of the loops; with any fuel at all the
  build reaches the error.)
\<close>

theorem neighbours_of_empty_store_raise:
  assumes "reachable junk sim" and "da_data (ps_array sim) = []"
  shows "ps_kd_tree sim = None \<and>
         get_neighbour_particles fuel sim p count radius do_sort
           = (if fuel = 0 then None else Some (Inl ValueError))"
proof -
  have "cache_inv sim"
    using assms(1) by (rule reachable_cache_inv)
  then have kd: "ps_kd_tree sim = None"
    using assms(2) by (simp add: cache_inv_def)
  then show ?thesis
    using assms(2) KDTree_init_empty[of 128 fuel] by (simp add: get_neighbour_particles_def)
qed

theorem neighbours_of_empty_store_raise_witness:
  "\<exists>sim0 sim.
     ParticleSimulation_init (\<lambda>_. default_particle) (1 / 50) 4 2 None = Inr sim0 \<and>
     apply_op (\<lambda>_. default_particle) (AddParticle (\<lambda>p. p)) sim0 = Inr sim \<and>
     da_data (ps_array sim) = [] \<and>
     get_neighbour_particles 10 sim (0, 0) (Some 1) None False = Some (Inl ValueError) \<and>
     get_neighbour_particles 10 sim (0, 0) (Some 0) (Some 1) True = Some (Inl ValueError)"
proof -
  let ?junk = "\<lambda>_::nat. default_particle"
  have "case ParticleSimulation_init ?junk (1 / 50) 4 2 None of
          Inl e \<Rightarrow> False
        | Inr sim0 \<Rightarrow>
            (case apply_op ?junk (AddParticle (\<lambda>p. p)) sim0 of
               Inl e \<Rightarrow> False
             | Inr sim \<Rightarrow> da_data (ps_array sim) = [])"
    by code_simp
  then obtain sim0 sim where
    init: "ParticleSimulation_init ?junk (1 / 50) 4 2 None = Inr sim0"
    and ap: "apply_op ?junk (AddParticle (\<lambda>p. p)) sim0 = Inr sim"
    and c: "da_data (ps_array sim) = []"
    by (auto split: sum.splits)
  have "reachable ?junk sim0"
    using init by (rule reachable.created)
  then have r: "reachable ?junk sim"
    using ap by (rule reachable.called)
  from neighbours_of_empty_store_raise[OF r c, of 10 "(0, 0)" "Some 1" None False]
    neighbours_of_empty_store_raise[OF r c, of 10 "(0, 0)" "Some 0" "Some 1" True]
  show ?thesis
    using init ap c by auto
qed

section \<open>Construction and its errors\<close>

lemma Min_insert_min:
  "finite S \<Longrightarrow> Min (insert (min x y) S) = min (x::'a::linorder) (Min (insert y S))"
  by (cases "S = {}") (simp_all add: min.assoc)

lemma Max_insert_max:
  "finite S \<Longrightarrow> Max (insert (max x y) S) = max (x::'a::linorder) (Max (insert y S))"
  by (cases "S = {}") (simp_all add: max.assoc)

lemma foldl_min_pt:
  "foldl (\<lambda>a b. (min (fst a) (fst b), min (snd a) (snd b))) a ps
     = (Min (insert (fst a) (fst ` set ps)), Min (insert (snd a) (snd ` set ps)))"
proof (induction ps arbitrary: a)
  case Nil
  then show ?case by simp
next
  case (Cons p ps)
  have "Min (insert (min (fst a) (fst p)) (fst ` set ps))
          = min (fst a) (Min (insert (fst p) (fst ` set ps)))"
    "Min (insert (min (snd a) (snd p)) (snd ` set ps))
          = min (snd a) (Min (insert (snd p) (snd ` set ps)))"
    by (rule Min_insert_min, simp)+
  then show ?case
    using Cons[of "(min (fst a) (fst p), min (snd a) (snd p))"]
    by simp
qed

lemma foldl_max_pt:
  "foldl (\<lambda>a b. (max (fst a) (fst b), max (snd a) (snd b))) a ps
     = (Max (insert (fst a) (fst ` set ps)), Max (insert (snd a) (snd ` set ps)))"
proof (induction ps arbitrary: a)
  case Nil
  then show ?case by simp
next
  case (Cons p ps)
  have "Max (insert (max (fst a) (fst p)) (fst ` set ps))
          = max (fst a) (Max (insert (fst p) (fst ` set ps)))"
    "Max (insert (max (snd a) (snd p)) (snd ` set ps))
          = max (snd a) (Max (insert (snd p) (snd ` set ps)))"
    by (rule Max_insert_max, simp)+
  then show ?case
    using Cons[of "(max (fst a) (fst p), max (snd a) (snd p))"]
    by simp
qed

lemma np_amin_eq:
  "points \<noteq> [] \<Longrightarrow> np_amin points = Inr (Min (fst ` set points), Min (snd ` set points))"
  by (cases points) (simp_all add: foldl_min_pt)

lemma np_amax_eq:
  "points \<noteq> [] \<Longrightarrow> np_amax points = Inr (Max (fst ` set points), Max (snd ` set points))"
  by (cases points) (simp_all add: foldl_max_pt)

lemma zip_filter_fst:
  "map fst (filter (\<lambda>(j, x). P x) (zip xs (map f xs))) = filter (\<lambda>j. P (f j)) xs"
  by (induction xs) simp_all

text \<open>
  The quantities of one iteration of \<^verbatim>\<open>_build\<close>, as functions of the indices popped from
  the stack: the bounds of the node, the split axis (the longest side, the first axis on
  a tie) and location (the midpoint of that side), and the indices that go left
  (\<^verbatim>\<open><=\<close> the location) and right (\<^verbatim>\<open>>\<close> the location).
\<close>

definition lower_of :: "point list \<Rightarrow> point" where
  "lower_of points = (Min (fst ` set points), Min (snd ` set points))"

definition upper_of :: "point list \<Rightarrow> point" where
  "upper_of points = (Max (fst ` set points), Max (snd ` set points))"

definition split_axis_of :: "point list \<Rightarrow> nat" where
  "split_axis_of points =
     (if fst (upper_of points) - fst (lower_of points) \<ge> snd (upper_of points) - snd (lower_of points)
      then 0 else 1)"

definition split_location_of :: "point list \<Rightarrow> real" where
  "split_location_of points =
     (coord (split_axis_of points) (lower_of points)
      + coord (split_axis_of points) (upper_of points)) / 2"

definition points_of :: "point list \<Rightarrow> nat list \<Rightarrow> point list" where
  "points_of data indices = map (\<lambda>i. data ! i) indices"

definition left_of :: "point list \<Rightarrow> nat list \<Rightarrow> nat list" where
  "left_of data indices =
     filter (\<lambda>j. coord (split_axis_of (points_of data indices)) (data ! j)
                  \<le> split_location_of (points_of data indices)) indices"

definition right_of :: "point list \<Rightarrow> nat list \<Rightarrow> nat list" where
  "right_of data indices =
     filter (\<lambda>j. coord (split_axis_of (points_of data indices)) (data ! j)
                  > split_location_of (points_of data indices)) indices"

definition node_of :: "point list \<Rightarrow> nat list \<Rightarrow> int \<Rightarrow> kd_node" where
  "node_of data indices bucket =
     \<lparr>node_size = 1, node_bucket = bucket,
      node_lower_bounds = lower_of (points_of data indices),
      node_upper_bounds = upper_of (points_of data indices)\<rparr>"

lemma build_loop_Suc:
  assumes "indices \<noteq> []" and "\<forall>i\<in>set indices. i < length data"
  shows "build_loop (Suc fuel) data bucket_size ((indices, parent) # stack) nodes parents buckets i =
     (if int (length indices) \<le> bucket_size then
        build_loop fuel data bucket_size stack
          (nodes @ [node_of data indices (int (length buckets))])
          (parents @ [parent]) (buckets @ [indices]) (i + 1)
      else
        build_loop fuel data bucket_size
          ((left_of data indices, Some i) # (right_of data indices, Some i) # stack)
          (nodes @ [node_of data indices (- 1)])
          (parents @ [parent]) buckets (i + 1))"
proof -
  let ?points = "points_of data indices"
  have t: "np_take data indices = Inr ?points"
    using assms(2) by (simp add: np_take_def list_all_iff points_of_def)
  have ne: "?points \<noteq> []"
    using assms(1) by (simp add: points_of_def)
  have lo: "np_amin ?points = Inr (lower_of ?points)"
    using ne by (simp add: np_amin_eq lower_of_def)
  have hi: "np_amax ?points = Inr (upper_of ?points)"
    using ne by (simp add: np_amax_eq upper_of_def)
  have len: "length ?points = length indices"
    by (simp add: points_of_def)
  have l: "map fst (filter (\<lambda>(j, x). x \<le> split_location_of ?points)
             (zip indices (map (coord (split_axis_of ?points)) ?points))) = left_of data indices"
    using zip_filter_fst[of "\<lambda>x. x \<le> split_location_of ?points" indices
        "\<lambda>j. coord (split_axis_of ?points) (data ! j)"]
    by (simp add: left_of_def points_of_def comp_def)
  have r: "map fst (filter (\<lambda>(j, x). x > split_location_of ?points)
             (zip indices (map (coord (split_axis_of ?points)) ?points))) = right_of data indices"
    using zip_filter_fst[of "\<lambda>x. x > split_location_of ?points" indices
        "\<lambda>j. coord (split_axis_of ?points) (data ! j)"]
    by (simp add: right_of_def points_of_def comp_def)
  show ?thesis
    unfolding build_loop.simps t lo hi sum.case len Let_def fst_conv snd_conv
      split_axis_of_def[symmetric] split_location_of_def[symmetric] l r
      node_of_def ..
qed


lemma coord_lower:
  "coord axis (lower_of points) = Min (coord axis ` set points)"
  by (simp add: coord_def lower_of_def cong: image_cong_simp)

lemma coord_upper:
  "coord axis (upper_of points) = Max (coord axis ` set points)"
  by (simp add: coord_def upper_of_def cong: image_cong_simp)

lemma set_points_of: "set (points_of data indices) = (\<lambda>i. data ! i) ` set indices"
  by (simp add: points_of_def)

lemma left_of_nonempty:
  assumes "indices \<noteq> []"
  shows "left_of data indices \<noteq> []"
proof -
  let ?points = "points_of data indices"
  let ?c = "coord (split_axis_of ?points)"
  have fin: "finite (?c ` set ?points)" and ne: "?c ` set ?points \<noteq> {}"
    using assms by (simp_all add: points_of_def)
  have "Min (?c ` set ?points) \<in> ?c ` set ?points"
    using fin ne by (rule Min_in)
  then obtain j where j: "j \<in> set indices" "?c (data ! j) = Min (?c ` set ?points)"
    by (auto simp: set_points_of)
  have "Min (?c ` set ?points) \<le> Max (?c ` set ?points)"
    using fin ne by (meson Max_ge Min_le order_trans ex_in_conv)
  then have "?c (data ! j) \<le> split_location_of ?points"
    using j(2) by (simp add: split_location_of_def coord_lower coord_upper)
  then have "j \<in> set (left_of data indices)"
    using j(1) by (simp add: left_of_def)
  then show ?thesis by auto
qed

lemma right_of_nonempty:
  assumes "indices \<noteq> []"
    and "coord (split_axis_of (points_of data indices)) (lower_of (points_of data indices))
          < coord (split_axis_of (points_of data indices)) (upper_of (points_of data indices))"
  shows "right_of data indices \<noteq> []"
proof -
  let ?points = "points_of data indices"
  let ?c = "coord (split_axis_of ?points)"
  have fin: "finite (?c ` set ?points)" and ne: "?c ` set ?points \<noteq> {}"
    using assms(1) by (simp_all add: points_of_def)
  have "Max (?c ` set ?points) \<in> ?c ` set ?points"
    using fin ne by (rule Max_in)
  then obtain j where j: "j \<in> set indices" "?c (data ! j) = Max (?c ` set ?points)"
    by (auto simp: set_points_of)
  have "split_location_of ?points < ?c (data ! j)"
    using j(2) assms(2) by (simp add: split_location_of_def coord_lower coord_upper)
  then have "j \<in> set (right_of data indices)"
    using j(1) by (simp add: right_of_def)
  then show ?thesis by auto
qed

text \<open>
  Coordinates are real numbers here, so the midpoint of a side of positive length lies
  strictly below its upper end, and the right part of a split is empty only when all
  points of the node are the same point. Then the left part is the whole node again:
  a node of more than \<^verbatim>\<open>bucket_size\<close> copies of one point is split for ever.
\<close>

definition identical :: "point list \<Rightarrow> nat list \<Rightarrow> bool" where
  "identical data indices = (\<forall>i\<in>set indices. \<forall>j\<in>set indices. data ! i = data ! j)"

lemma Min_eq_Max_const:
  assumes "finite S" and "x \<in> S" and "y \<in> S" and "Max S \<le> Min (S::real set)"
  shows "x = y"
proof -
  have "Min S \<le> x" "x \<le> Max S" "Min S \<le> y" "y \<le> Max S"
    using assms by simp_all
  then show ?thesis using assms(4) by linarith
qed

lemma degenerate_identical:
  assumes "indices \<noteq> []"
    and "\<not> coord (split_axis_of (points_of data indices)) (lower_of (points_of data indices))
          < coord (split_axis_of (points_of data indices)) (upper_of (points_of data indices))"
  shows "identical data indices" and "left_of data indices = indices"
proof -
  let ?points = "points_of data indices"
  have fin: "finite (fst ` set ?points)" "finite (snd ` set ?points)" by simp_all
  have ne: "fst ` set ?points \<noteq> {}" "snd ` set ?points \<noteq> {}"
    using assms(1) by (simp_all add: points_of_def)
  have le0: "Min (fst ` set ?points) \<le> Max (fst ` set ?points)"
    using fin(1) ne(1) by (meson Max_ge Min_le order_trans ex_in_conv)
  have le1: "Min (snd ` set ?points) \<le> Max (snd ` set ?points)"
    using fin(2) ne(2) by (meson Max_ge Min_le order_trans ex_in_conv)
  define a0 b0 a1 b1 where "a0 = Min (fst ` set ?points)" and "b0 = Max (fst ` set ?points)"
    and "a1 = Min (snd ` set ?points)" and "b1 = Max (snd ` set ?points)"
  have ax: "split_axis_of ?points = (if b0 - a0 \<ge> b1 - a1 then 0 else 1)"
    by (simp add: split_axis_of_def lower_of_def upper_of_def a0_def b0_def a1_def b1_def)
  have deg: "if b0 - a0 \<ge> b1 - a1 then \<not> a0 < b0 else \<not> a1 < b1"
  proof (cases "b0 - a0 \<ge> b1 - a1")
    case True
    then have "split_axis_of ?points = 0" by (simp only: ax if_True)
    then show ?thesis
      using assms(2) True
      by (simp add: coord_def lower_of_def upper_of_def a0_def b0_def)
  next
    case False
    then have "split_axis_of ?points = 1" by (simp only: ax if_False)
    then show ?thesis
      using assms(2) False
      by (simp add: coord_def lower_of_def upper_of_def a1_def b1_def)
  qed
  have le: "a0 \<le> b0" "a1 \<le> b1"
    using le0 le1 by (simp_all only: a0_def b0_def a1_def b1_def)
  have "b0 \<le> a0 \<and> b1 \<le> a1"
  proof (cases "b0 - a0 \<ge> b1 - a1")
    case True
    with deg have "\<not> a0 < b0" by (simp only: if_True simp_thms)
    then show ?thesis using True le by linarith
  next
    case False
    with deg have "\<not> a1 < b1" by (simp only: if_False simp_thms)
    then show ?thesis using False le by linarith
  qed
  then have both: "Max (fst ` set ?points) \<le> Min (fst ` set ?points)
              \<and> Max (snd ` set ?points) \<le> Min (snd ` set ?points)"
    by (simp only: a0_def b0_def a1_def b1_def)
  show id: "identical data indices"
    unfolding identical_def
  proof (intro ballI)
    fix i j assume ij: "i \<in> set indices" "j \<in> set indices"
    have m: "fst (data ! i) \<in> fst ` set ?points" "fst (data ! j) \<in> fst ` set ?points"
      "snd (data ! i) \<in> snd ` set ?points" "snd (data ! j) \<in> snd ` set ?points"
      using ij by (simp_all add: set_points_of)
    have "fst (data ! i) = fst (data ! j)"
      using fin(1) m(1) m(2) both[THEN conjunct1] by (rule Min_eq_Max_const)
    moreover have "snd (data ! i) = snd (data ! j)"
      using fin(2) m(3) m(4) both[THEN conjunct2] by (rule Min_eq_Max_const)
    ultimately show "data ! i = data ! j" by (simp add: prod_eq_iff)
  qed
  let ?c = "coord (split_axis_of ?points)"
  have finc: "finite (?c ` set ?points)" by simp
  have "\<forall>j\<in>set indices. ?c (data ! j) \<le> split_location_of ?points"
  proof
    fix j assume j: "j \<in> set indices"
    then have m: "?c (data ! j) \<in> ?c ` set ?points" by (simp add: set_points_of)
    have "?c (data ! j) \<le> Max (?c ` set ?points)"
      using finc m by (rule Max_ge)
    moreover have "Max (?c ` set ?points) \<le> Min (?c ` set ?points)"
      using assms(2) by (simp add: coord_lower coord_upper)
    ultimately show "?c (data ! j) \<le> split_location_of ?points"
      by (simp add: split_location_of_def coord_lower coord_upper)
  qed
  then show "left_of data indices = indices"
    by (simp add: left_of_def)
qed

lemma identical_left_of:
  assumes "identical data indices" and "indices \<noteq> []"
  shows "left_of data indices = indices"
proof -
  let ?points = "points_of data indices"
  let ?c = "coord (split_axis_of ?points)"
  have h: "hd indices \<in> set indices" using assms(2) by simp
  have same: "\<And>x. x \<in> set indices \<Longrightarrow> data ! x = data ! hd indices"
    using assms(1) h unfolding identical_def by blast
  have "set ?points = {data ! hd indices}"
    unfolding set_points_of
  proof (rule equalityI; rule subsetI)
    fix p assume "p \<in> (\<lambda>i. data ! i) ` set indices"
    then obtain x where "x \<in> set indices" "p = data ! x" by (rule imageE)
    then show "p \<in> {data ! hd indices}" using same by simp
  next
    fix p assume "p \<in> {data ! hd indices}"
    then have "p = data ! hd indices" by simp
    then show "p \<in> (\<lambda>i. data ! i) ` set indices" using h by (rule image_eqI)
  qed
  then have "?c ` set ?points = {?c (data ! hd indices)}"
    by (simp only: image_insert image_empty)
  then have "\<not> coord (split_axis_of ?points) (lower_of ?points)
          < coord (split_axis_of ?points) (upper_of ?points)"
    by (simp only: coord_lower coord_upper Min_singleton Max_singleton less_irrefl not_False_eq_True)
  with assms(2) show ?thesis by (rule degenerate_identical(2))
qed

text \<open>
  The invariant of the build stack: every entry is non-empty and holds valid indices,
  and below an entry that is split for ever nothing is required, since the loop never
  gets there.
\<close>

definition diverges :: "point list \<Rightarrow> int \<Rightarrow> nat list \<Rightarrow> bool" where
  "diverges data bucket_size indices =
     (identical data indices \<and> bucket_size < int (length indices))"

fun stack_ok :: "point list \<Rightarrow> int \<Rightarrow> (nat list \<times> nat option) list \<Rightarrow> bool" where
  "stack_ok data bucket_size [] = True"
| "stack_ok data bucket_size ((indices, parent) # stack) =
     (indices \<noteq> [] \<and> (\<forall>i\<in>set indices. i < length data)
      \<and> (diverges data bucket_size indices \<or> stack_ok data bucket_size stack))"

lemma left_of_subset: "set (left_of data indices) \<subseteq> set indices"
  by (simp add: left_of_def)

lemma right_of_subset: "set (right_of data indices) \<subseteq> set indices"
  by (simp add: right_of_def)

lemma build_loop_never_raises:
  "stack_ok data bucket_size stack \<Longrightarrow>
   build_loop fuel data bucket_size stack nodes parents buckets i \<noteq> Some (Inl e)"
proof (induction fuel arbitrary: stack nodes parents buckets i)
  case 0
  then show ?case by simp
next
  case (Suc fuel)
  show ?case
  proof (cases stack)
    case Nil
    then show ?thesis by simp
  next
    case (Cons top rest)
    obtain indices parent where top: "top = (indices, parent)" by (cases top)
    from Suc.prems have ne: "indices \<noteq> []" and valid: "\<forall>i\<in>set indices. i < length data"
      and alt: "diverges data bucket_size indices \<or> stack_ok data bucket_size rest"
      by (simp_all add: Cons top)
    note step = build_loop_Suc[OF ne valid]
    show ?thesis
    proof (cases "int (length indices) \<le> bucket_size")
      case True
      then have ok: "stack_ok data bucket_size rest"
        using alt by (auto simp: diverges_def)
      have eq: "build_loop (Suc fuel) data bucket_size stack nodes parents buckets i =
          build_loop fuel data bucket_size rest
               (nodes @ [node_of data indices (int (length buckets))])
               (parents @ [parent]) (buckets @ [indices]) (i + 1)"
        unfolding Cons top step using True by (simp only: if_True)
      show ?thesis
        unfolding eq using ok by (rule Suc.IH)
    next
      case False
      let ?points = "points_of data indices"
      have lne: "left_of data indices \<noteq> []" using ne by (rule left_of_nonempty)
      have lvalid: "\<forall>i\<in>set (left_of data indices). i < length data"
        using valid left_of_subset[of data indices] by auto
      have rvalid: "\<forall>i\<in>set (right_of data indices). i < length data"
        using valid right_of_subset[of data indices] by auto
      have "stack_ok data bucket_size
              ((left_of data indices, Some i) # (right_of data indices, Some i) # rest)"
      proof (cases "diverges data bucket_size indices")
        case True
        then have "left_of data indices = indices"
          using ne by (simp add: diverges_def identical_left_of)
        then show ?thesis using True ne valid by simp
      next
        case nd: False
        then have rest: "stack_ok data bucket_size rest" using alt by simp
        have "\<not> identical data indices" using nd False by (simp add: diverges_def)
        then have "coord (split_axis_of ?points) (lower_of ?points)
          < coord (split_axis_of ?points) (upper_of ?points)"
          using degenerate_identical(1)[OF ne] by blast
        with ne have "right_of data indices \<noteq> []" by (rule right_of_nonempty)
        then show ?thesis using lne lvalid rvalid rest by simp
      qed
      then have ok: "stack_ok data bucket_size
              ((left_of data indices, Some i) # (right_of data indices, Some i) # rest)" .
      have eq: "build_loop (Suc fuel) data bucket_size stack nodes parents buckets i =
          build_loop fuel data bucket_size
               ((left_of data indices, Some i) # (right_of data indices, Some i) # rest)
               (nodes @ [node_of data indices (- 1)])
               (parents @ [parent]) buckets (i + 1)"
        unfolding Cons top step using False by (simp only: if_False)
      show ?thesis
        unfolding eq using ok by (rule Suc.IH)
    qed
  qed
qed

lemma KDTree_init_never_raises:
  assumes "1 \<le> bucket_size" and "data \<noteq> []"
  shows "KDTree_init fuel data bucket_size \<noteq> Some (Inl e)"
proof -
  have "stack_ok data bucket_size [([0..<length data], None)]"
    using assms(2) by simp
  then have "build_loop fuel data bucket_size [([0..<length data], None)] [] [] [] 0 \<noteq> Some (Inl e)"
    by (rule build_loop_never_raises)
  then show ?thesis
    using assms(1) by (auto simp: KDTree_init_def split: option.splits sum.splits)
qed

lemma OrderedBuffer_init_raises:
  "(\<exists>e. (OrderedBuffer_init bucket_capacity :: error + 'a ordered_buffer) = Inl e)
     = (bucket_capacity < 1)"
  by (simp add: OrderedBuffer_init_def)

lemma ParticleSimulation_init_raises:
  "(\<exists>e. ParticleSimulation_init junk time_step capacity bucket_capacity None = Inl e)
     = (capacity < 0 \<or> bucket_capacity < 1)"
  by (cases "capacity < 0"; cases "bucket_capacity < 1")
    (simp_all add: ParticleSimulation_init_def DynamicArray_init_def np_empty_def
      OrderedBuffer_init_def)

text \<open>
  Claim C8, as the code has it. The constructors raise \<^verbatim>\<open>ValueError\<close>. \<^verbatim>\<open>KDTree\<close> raises it
  when \<^verbatim>\<open>bucket_size < 1\<close>; with a bucket size of at least 1 it also raises it for an empty
  point set (from \<^verbatim>\<open>numpy.amin\<close> of the empty root node), and raises nothing for a
  non-empty one, however many iterations of the build loop are run. \<^verbatim>\<open>OrderedBuffer\<close>
  raises exactly when \<^verbatim>\<open>bucket_capacity < 1\<close>. \<^verbatim>\<open>ParticleSimulation\<close>, without an
  initialize callback, raises exactly when the initial capacity is negative or the bucket
  capacity is less than 1: the time step takes no part in it, since it is stored
  unchecked.
\<close>

theorem construction_raises:
  "(bucket_size < 1 \<longrightarrow> KDTree_init fuel data bucket_size = Some (Inl ValueError))
   \<and> (1 \<le> bucket_size \<and> fuel \<noteq> 0 \<longrightarrow> KDTree_init fuel [] bucket_size = Some (Inl ValueError))
   \<and> (1 \<le> bucket_size \<and> data \<noteq> [] \<longrightarrow> (\<forall>e. KDTree_init fuel data bucket_size \<noteq> Some (Inl e)))
   \<and> ((\<exists>e. (OrderedBuffer_init bucket_capacity :: error + particle ordered_buffer) = Inl e)
        = (bucket_capacity < 1))
   \<and> ((\<exists>e. ParticleSimulation_init junk time_step capacity bucket_capacity None = Inl e)
        = (capacity < 0 \<or> bucket_capacity < 1))"
proof (intro conjI impI allI)
  assume "bucket_size < 1"
  then show "KDTree_init fuel data bucket_size = Some (Inl ValueError)"
    by (rule KDTree_init_bad_bucket_size)
next
  assume "1 \<le> bucket_size \<and> fuel \<noteq> 0"
  then show "KDTree_init fuel [] bucket_size = Some (Inl ValueError)"
    by (simp add: KDTree_init_empty)
next
  fix e assume "1 \<le> bucket_size \<and> data \<noteq> []"
  then show "KDTree_init fuel data bucket_size \<noteq> Some (Inl e)"
    by (simp add: KDTree_init_never_raises)
next
  show "(\<exists>e. (OrderedBuffer_init bucket_capacity :: error + particle ordered_buffer) = Inl e)
        = (bucket_capacity < 1)"
    by (rule OrderedBuffer_init_raises)
next
  show "(\<exists>e. ParticleSimulation_init junk time_step capacity bucket_capacity None = Inl e)
        = (capacity < 0 \<or> bucket_capacity < 1)"
    by (rule ParticleSimulation_init_raises)
qed

theorem construction_raises_witness:
  "KDTree_init 5 [(0, 0), (1, 1)] 0 = Some (Inl ValueError)
   \<and> KDTree_init 5 [] 1 = Some (Inl ValueError)
   \<and> (\<forall>e. KDTree_init 5 [(0, 0), (1, 1)] 1 \<noteq> Some (Inl e))
   \<and> (\<exists>e. (OrderedBuffer_init 0 :: error + particle ordered_buffer) = Inl e)
   \<and> \<not> (\<exists>e. (OrderedBuffer_init 1 :: error + particle ordered_buffer) = Inl e)
   \<and> \<not> (\<exists>e. ParticleSimulation_init (\<lambda>_. default_particle) (- 1) 0 1 None = Inl e)"
  using construction_raises [of 0 5 "[(0, 0), (1, 1)]" 0 "\<lambda>_. default_particle" "- 1" 0]
    construction_raises [of 1 5 "[(0, 0), (1, 1)]" 1 "\<lambda>_. default_particle" "- 1" 0]
  by simp

theorem time_step_unchecked_counterexample:
  "ParticleSimulation_init (\<lambda>_. default_particle) 0 0 1 None =
     Inr \<lparr>ps_time_step = 0, ps_time = 0, ps_last_id = - 1,
          ps_array = \<lparr>da_array = [], da_size = 0\<rparr>,
          ps_buffer = \<lparr>ob_buckets = [], ob_bucket_capacity = 1, ob_pos = (0, 0), ob_bunchs = []\<rparr>,
          ps_kd_tree = None\<rparr>
   \<and> ParticleSimulation_init (\<lambda>_. default_particle) (- 1) 0 1 None =
     Inr \<lparr>ps_time_step = - 1, ps_time = 0, ps_last_id = - 1,
          ps_array = \<lparr>da_array = [], da_size = 0\<rparr>,
          ps_buffer = \<lparr>ob_buckets = [], ob_bucket_capacity = 1, ob_pos = (0, 0), ob_bunchs = []\<rparr>,
          ps_kd_tree = None\<rparr>
   \<and> KDTree_init 1 [] 1 = Some (Inl ValueError)"
  by (simp add: ParticleSimulation_init_def DynamicArray_init_def np_empty_def
      OrderedBuffer_init_def KDTree_init_def np_take_def)

section \<open>Consolidation after any sequence of calls\<close>

text \<open>
  The calls of a client, neighbour queries included: a query that returns leaves the
  tree it searched cached in the simulation. A sequence of calls stops at the first one
  that raises, and has no result when a loop of a query does not come to its end within
  the fuel.
\<close>

datatype call = Call sim_op | Query point "int option" "real option" bool

fun apply_call :: "(nat \<Rightarrow> particle) \<Rightarrow> nat \<Rightarrow> call \<Rightarrow> psim \<Rightarrow> (error + psim) option" where
  "apply_call junk fuel (Call x) sim = Some (apply_op junk x sim)"
| "apply_call junk fuel (Query p count radius do_sort) sim =
     (case get_neighbour_particles fuel sim p count radius do_sort of
        None \<Rightarrow> None
      | Some (Inl e) \<Rightarrow> Some (Inl e)
      | Some (Inr r) \<Rightarrow> Some (Inr (snd r)))"

fun run_calls :: "(nat \<Rightarrow> particle) \<Rightarrow> nat \<Rightarrow> call list \<Rightarrow> psim \<Rightarrow> (error + psim) option" where
  "run_calls junk fuel [] sim = Some (Inr sim)"
| "run_calls junk fuel (c # cs) sim =
     (case apply_call junk fuel c sim of
        None \<Rightarrow> None
      | Some (Inl e) \<Rightarrow> Some (Inl e)
      | Some (Inr sim') \<Rightarrow> run_calls junk fuel cs sim')"

text \<open>The number of ids a call takes.\<close>

fun taken :: "call \<Rightarrow> int" where
  "taken (Call x) = added x"
| "taken (Query p count radius do_sort) = 0"

text \<open>
  The particles that a sequence of calls inserts, in the order of the calls, as they are
  when inserted: \<^verbatim>\<open>add_particle\<close> inserts the default particle with the keyword
  arguments applied and the next id, \<^verbatim>\<open>add_particles\<close> inserts default particles with
  the next ids. The first argument is the last id taken before the calls.
\<close>

fun inserted :: "int \<Rightarrow> call list \<Rightarrow> particle list" where
  "inserted l [] = []"
| "inserted l (Call (AddParticle kwargs) # cs) =
     (kwargs default_particle)\<lparr>pid := l + 1\<rparr> # inserted (l + 1) cs"
| "inserted l (Call (AddParticles count) # cs) =
     map (\<lambda>k. default_particle\<lparr>pid := l + 1 + int k\<rparr>) [0..<nat count]
     @ inserted (l + max 0 count) cs"
| "inserted l (c # cs) = inserted l cs"

text \<open>A particle whatever its \<^verbatim>\<open>alive\<close> flag, the one attribute the calls assign to.\<close>

definition unflag :: "particle \<Rightarrow> particle" where
  "unflag p = p\<lparr>alive := True\<rparr>"

lemma mutate_buffer_map:
  assumes "\<And>p. g (f p) = g p"
  shows "ob_map g (ps_buffer (mutate h f sim)) = ob_map g (ps_buffer sim)"
proof (cases h)
  case (InStore i)
  then show ?thesis by (simp add: mutate_def)
next
  case (InBucket i j)
  let ?bs = "ob_buckets (ps_buffer sim)"
  have "map g ((?bs ! i)[j := f (?bs ! i ! j)]) = map g (?bs ! i)"
    using assms by (intro list_update_map_same) simp
  then have "map (map g) (?bs[i := (?bs ! i)[j := f (?bs ! i ! j)]]) = map (map g) ?bs"
    by (rule list_update_map_same)
  then show ?thesis
    by (simp add: mutate_def InBucket ob_map_def)
next
  case (InBunch k j)
  let ?bs = "ob_bunchs (ps_buffer sim)"
  let ?g = "\<lambda>bunch. (fst bunch, map g (snd bunch))"
  have "map g ((snd (?bs ! k))[j := f (snd (?bs ! k) ! j)]) = map g (snd (?bs ! k))"
    using assms by (intro list_update_map_same) simp
  then have "?g (fst (?bs ! k), (snd (?bs ! k))[j := f (snd (?bs ! k) ! j)]) = ?g (?bs ! k)"
    by simp
  then have "map ?g (?bs[k := (fst (?bs ! k), (snd (?bs ! k))[j := f (snd (?bs ! k) ! j)])]) = map ?g ?bs"
    by (rule list_update_map_same)
  then show ?thesis
    by (simp add: mutate_def InBunch ob_map_def)
qed

lemma mutate_content_map:
  assumes "\<And>p. g (f p) = g p"
  shows "map g (ob_content (ps_buffer (mutate h f sim))) = map g (ob_content (ps_buffer sim))"
proof -
  have "map g (ob_content (ps_buffer (mutate h f sim)))
          = ob_content (ob_map g (ps_buffer (mutate h f sim)))"
    by (simp only: ob_content_map)
  also have "\<dots> = ob_content (ob_map g (ps_buffer sim))"
    using assms by (simp only: mutate_buffer_map)
  finally show ?thesis by (simp only: ob_content_map)
qed

lemma mutate_store_map:
  assumes "\<And>p. g (f p) = g p"
  shows "map g (da_data (ps_array (mutate h f sim))) = map g (da_data (ps_array sim))"
proof -
  let ?a = "da_array (ps_array sim)"
  have "map g (?a[i := f (?a ! i)]) = map g ?a" for i
    using assms by (intro list_update_map_same) simp
  then have "map g (py_upto n (?a[i := f (?a ! i)])) = map g (py_upto n ?a)" for i n
    by (simp add: py_upto_def take_map[symmetric] del: take_map)
  then show ?thesis
    by (cases h) (simp_all add: mutate_def da_data_def)
qed

lemma query_frame:
  assumes "get_neighbour_particles fuel sim p count radius do_sort = Some (Inr r)"
  shows "\<exists>tree. snd r = sim\<lparr>ps_kd_tree := Some tree\<rparr>"
  using assms unfolding get_neighbour_particles_def
  by (auto split: option.splits sum.splits)


lemma inserted_Cons: "inserted l (c # cs) = inserted l [c] @ inserted (l + taken c) cs"
proof (cases c)
  case (Call x)
  then show ?thesis by (cases x) simp_all
next
  case (Query p count radius do_sort)
  then show ?thesis by simp
qed

lemma taken_nonneg: "0 \<le> sum_list (map taken cs)"
proof (induction cs)
  case Nil
  then show ?case by simp
next
  case (Cons c cs)
  have "0 \<le> taken c"
  proof (cases c)
    case (Call x)
    then show ?thesis using added_nonneg[of "[x]"] by simp
  next
    case (Query p count radius do_sort)
    then show ?thesis by simp
  qed
  with Cons show ?case by simp
qed

lemma apply_call_inv:
  assumes inv: "sim_inv sim" and fit: "ps_last_id sim + taken c < 2 ^ 31"
    and ap: "apply_call junk fuel c sim = Some (Inr sim')"
  shows "sim_inv sim'" and "ps_last_id sim' = ps_last_id sim + taken c"
proof -
  have "sim_inv sim' \<and> ps_last_id sim' = ps_last_id sim + taken c"
  proof (cases c)
    case (Call x)
    then have a: "apply_op junk x sim = Inr sim'" using ap by simp
    have f: "ps_last_id sim + added x < 2 ^ 31" using fit Call by simp
    show ?thesis using apply_op_inv(1,2)[OF inv f a] Call by simp
  next
    case (Query p count radius do_sort)
    then obtain r where r: "get_neighbour_particles fuel sim p count radius do_sort = Some (Inr r)"
      and s: "sim' = snd r"
      using ap by (auto split: option.splits sum.splits)
    from query_frame[OF r] s obtain tree where "sim' = sim\<lparr>ps_kd_tree := Some tree\<rparr>"
      by auto
    then show ?thesis using inv Query by (simp add: sim_inv_def sim_ids_def)
  qed
  then show "sim_inv sim'" and "ps_last_id sim' = ps_last_id sim + taken c" by simp_all
qed

lemma apply_call_inserts:
  assumes inv: "sim_inv sim" and fit: "ps_last_id sim + taken c < 2 ^ 31"
    and ap: "apply_call junk fuel c sim = Some (Inr sim')"
    and nc: "c \<noteq> Call Consolidate"
  shows "map unflag (da_data (ps_array sim')) = map unflag (da_data (ps_array sim))"
    and "map unflag (ob_content (ps_buffer sim'))
           = map unflag (ob_content (ps_buffer sim) @ inserted (ps_last_id sim) [c])"
    and "ps_kd_tree sim \<noteq> None \<Longrightarrow> ps_kd_tree sim' \<noteq> None"
proof -
  have "map unflag (da_data (ps_array sim')) = map unflag (da_data (ps_array sim))
      \<and> map unflag (ob_content (ps_buffer sim'))
           = map unflag (ob_content (ps_buffer sim) @ inserted (ps_last_id sim) [c])
      \<and> (ps_kd_tree sim \<noteq> None \<longrightarrow> ps_kd_tree sim' \<noteq> None)"
  proof (cases c)
    case (Query p count radius do_sort)
    then obtain r where r: "get_neighbour_particles fuel sim p count radius do_sort = Some (Inr r)"
      and s: "sim' = snd r"
      using ap by (auto split: option.splits sum.splits)
    from query_frame[OF r] s obtain tree where "sim' = sim\<lparr>ps_kd_tree := Some tree\<rparr>"
      by auto
    then show ?thesis using Query by simp
  next
    case (Call x)
    then have a: "apply_op junk x sim = Inr sim'" using ap by simp
    show ?thesis
    proof (cases x)
      case (AddParticle kwargs)
      have f: "ps_last_id sim + 1 < 2 ^ 31" using fit Call AddParticle by simp
      from add_particle_inv[OF inv f, of junk kwargs] a AddParticle
      show ?thesis using Call by (auto simp: bind_err_eq_Inr)
    next
      case (AddParticles count)
      obtain r where r: "add_particles junk count sim = Inr r"
        using a AddParticles by (cases "add_particles junk count sim") simp_all
      then have pos: "0 < count" by (rule add_particles_Inr_pos)
      then have f: "ps_last_id sim + count < 2 ^ 31" using fit Call AddParticles by simp
      from add_particles_inv[OF inv pos f, of junk] a AddParticles
      show ?thesis using Call by (auto simp: bind_err_eq_Inr)
    next
      case (SetAlive h v)
      have g: "\<And>p. unflag (p\<lparr>alive := v\<rparr>) = unflag p" by (simp add: unflag_def)
      have s: "sim' = mutate h (\<lambda>p. p\<lparr>alive := v\<rparr>) sim"
        using a SetAlive by (simp add: set_alive_def)
      have "ps_kd_tree sim' = ps_kd_tree sim"
        unfolding s by (cases h) (simp_all add: mutate_def)
      then show ?thesis
        unfolding s using mutate_store_map[of unflag, OF g] mutate_content_map[of unflag, OF g]
        by (simp add: Call SetAlive)
    next
      case Consolidate
      then show ?thesis using nc Call by simp
    qed
  qed
  then show "map unflag (da_data (ps_array sim')) = map unflag (da_data (ps_array sim))"
    and "map unflag (ob_content (ps_buffer sim'))
           = map unflag (ob_content (ps_buffer sim) @ inserted (ps_last_id sim) [c])"
    and "ps_kd_tree sim \<noteq> None \<Longrightarrow> ps_kd_tree sim' \<noteq> None"
    by simp_all
qed

lemma run_calls_inv:
  assumes "sim_inv sim" and "ps_last_id sim + sum_list (map taken cs) < 2 ^ 31"
    and "run_calls junk fuel cs sim = Some (Inr sim')"
  shows "sim_inv sim' \<and> ps_last_id sim' = ps_last_id sim + sum_list (map taken cs)"
  using assms
proof (induction cs arbitrary: sim)
  case Nil
  then show ?case by simp
next
  case (Cons c cs)
  obtain s1 where s1: "apply_call junk fuel c sim = Some (Inr s1)"
    "run_calls junk fuel cs s1 = Some (Inr sim')"
    using Cons.prems(3) by (auto split: option.splits sum.splits)
  have "0 \<le> sum_list (map taken cs)" by (rule taken_nonneg)
  then have fit1: "ps_last_id sim + taken c < 2 ^ 31"
    using Cons.prems(2) by simp
  note a = apply_call_inv[OF Cons.prems(1) fit1 s1(1)]
  have "ps_last_id s1 + sum_list (map taken cs) < 2 ^ 31"
    using Cons.prems(2) a(2) by simp
  then have "sim_inv sim' \<and> ps_last_id sim' = ps_last_id s1 + sum_list (map taken cs)"
    using a(1) s1(2) by (intro Cons.IH)
  then show ?case
    using a(2) by simp
qed

lemma run_calls_inserts:
  assumes "sim_inv sim" and "ps_last_id sim + sum_list (map taken cs) < 2 ^ 31"
    and "run_calls junk fuel cs sim = Some (Inr sim')"
    and "Call Consolidate \<notin> set cs"
  shows "map unflag (da_data (ps_array sim')) = map unflag (da_data (ps_array sim))
     \<and> map unflag (ob_content (ps_buffer sim'))
           = map unflag (ob_content (ps_buffer sim) @ inserted (ps_last_id sim) cs)
     \<and> (ps_kd_tree sim \<noteq> None \<longrightarrow> ps_kd_tree sim' \<noteq> None)"
  using assms
proof (induction cs arbitrary: sim)
  case Nil
  then show ?case by simp
next
  case (Cons c cs)
  obtain s1 where s1: "apply_call junk fuel c sim = Some (Inr s1)"
    "run_calls junk fuel cs s1 = Some (Inr sim')"
    using Cons.prems(3) by (auto split: option.splits sum.splits)
  have "0 \<le> sum_list (map taken cs)" by (rule taken_nonneg)
  then have fit1: "ps_last_id sim + taken c < 2 ^ 31"
    using Cons.prems(2) by simp
  have nc: "c \<noteq> Call Consolidate" and ncs: "Call Consolidate \<notin> set cs"
    using Cons.prems(4) by auto
  note a = apply_call_inv[OF Cons.prems(1) fit1 s1(1)]
  note b = apply_call_inserts[OF Cons.prems(1) fit1 s1(1) nc]
  have "ps_last_id s1 + sum_list (map taken cs) < 2 ^ 31"
    using Cons.prems(2) a(2) by simp
  then have ih: "map unflag (da_data (ps_array sim')) = map unflag (da_data (ps_array s1))
     \<and> map unflag (ob_content (ps_buffer sim'))
           = map unflag (ob_content (ps_buffer s1) @ inserted (ps_last_id s1) cs)
     \<and> (ps_kd_tree s1 \<noteq> None \<longrightarrow> ps_kd_tree sim' \<noteq> None)"
    using a(1) s1(2) ncs by (intro Cons.IH)
  have "inserted (ps_last_id sim) (c # cs)
          = inserted (ps_last_id sim) [c] @ inserted (ps_last_id s1) cs"
    unfolding a(2) by (rule inserted_Cons)
  then show ?case
    using ih b by simp
qed


lemma run_calls_append:
  "run_calls junk fuel (xs @ ys) sim =
     (case run_calls junk fuel xs sim of
        None \<Rightarrow> None
      | Some (Inl e) \<Rightarrow> Some (Inl e)
      | Some (Inr sim') \<Rightarrow> run_calls junk fuel ys sim')"
  by (induction xs arbitrary: sim) (auto split: option.splits sum.splits)

lemma fresh_content:
  assumes "ParticleSimulation_init junk time_step capacity bucket_capacity None = Inr sim"
  shows "ob_content (ps_buffer sim) = []"
proof -
  note b = init_Inr[OF assms]
  have "sim = \<lparr>ps_time_step = time_step, ps_time = 0, ps_last_id = - 1,
         ps_array = \<lparr>da_array = map junk [0..<nat capacity], da_size = 0\<rparr>,
         ps_buffer = \<lparr>ob_buckets = [], ob_bucket_capacity = nat bucket_capacity,
              ob_pos = (0, 0), ob_bunchs = []\<rparr>,
         ps_kd_tree = None\<rparr>"
    using assms b
    by (simp add: ParticleSimulation_init_def DynamicArray_init_def np_empty_def
        OrderedBuffer_init_def)
  then show ?thesis
    by (simp add: ob_content_def offset_def slice_def)
qed

lemma consolidated_content:
  assumes inv: "sim_inv sim0"
    and fit: "ps_last_id sim0 + sum_list (map taken before) < 2 ^ 31"
    and run: "run_calls junk fuel before sim0 = Some (Inr sim1)"
    and lc: "before \<noteq> []" "last before = Call Consolidate"
  shows "ob_content (ps_buffer sim1) = []"
proof -
  obtain cs where split: "before = cs @ [Call Consolidate]"
    using lc append_butlast_last_id[of before] by (intro that[of "butlast before"]) simp
  have fit': "ps_last_id sim0 + sum_list (map taken cs) < 2 ^ 31"
    using fit unfolding split by simp
  have "run_calls junk fuel (cs @ [Call Consolidate]) sim0 = Some (Inr sim1)"
    using run unfolding split .
  then obtain s where s: "run_calls junk fuel cs sim0 = Some (Inr s)"
    and c: "consolidate junk s = Inr sim1"
    unfolding run_calls_append by (auto split: option.splits sum.splits)
  have "sim_inv s"
    using run_calls_inv[OF inv fit' s] by simp
  from consolidate_inv[OF this, of junk] c show ?thesis
    by auto
qed

text \<open>
  Claim C2, as the code has it. Take a simulation as its constructor leaves it (no
  \<^verbatim>\<open>initialize_callback\<close>), any sequence of calls that returns (\<^verbatim>\<open>add_particle\<close>,
  \<^verbatim>\<open>add_particles\<close>, assignments to \<^verbatim>\<open>alive\<close>, \<^verbatim>\<open>consolidate\<close>, neighbour queries), and
  after it any such sequence without \<^verbatim>\<open>consolidate\<close>, at most \<open>2^31\<close> ids being taken in
  all (the ids are \<^verbatim>\<open>Int32\<close>). Since the first sequence the store holds the same
  particles, \<^verbatim>\<open>alive\<close> flags apart, and the chunks of the buffer hold, flags apart, what
  they held followed by the particles the second sequence inserted, in the order of the
  calls; they held nothing if the first sequence is empty or ends with \<^verbatim>\<open>consolidate\<close>,
  so that the chunks are then the particles inserted since the last consolidation. A
  call of \<^verbatim>\<open>consolidate\<close> then returns; the store is exactly the alive
  particles of the store followed by the chunks of the buffer, in that order, with
  strictly ascending ids; the buffer has length zero and no chunk. The cached spatial
  index is dropped, except when the buffer was empty and every particle of the store
  alive: then the simulation is returned as it was, a cached index included.
\<close>

theorem consolidate_after_calls:
  assumes init: "ParticleSimulation_init junk time_step capacity bucket_capacity None = Inr sim0"
    and before: "run_calls junk fuel before sim0 = Some (Inr sim1)"
    and recent: "run_calls junk fuel recent sim1 = Some (Inr sim)"
    and nc: "Call Consolidate \<notin> set recent"
    and ids: "sum_list (map taken (before @ recent)) \<le> 2 ^ 31"
  shows "\<exists>chunks1 chunks sim' chunks'.
      ps_last_id sim1 = sum_list (map taken before) - 1 \<and>
      ob_chunks (ps_buffer sim1) = Inr chunks1 \<and> ob_chunks (ps_buffer sim) = Inr chunks \<and>
      map unflag (da_data (ps_array sim)) = map unflag (da_data (ps_array sim1)) \<and>
      map unflag (concat chunks) = map unflag (concat chunks1 @ inserted (ps_last_id sim1) recent) \<and>
      (before = [] \<or> last before = Call Consolidate \<longrightarrow> concat chunks1 = []) \<and>
      consolidate junk sim = Inr sim' \<and>
      da_data (ps_array sim') = filter alive (da_data (ps_array sim) @ concat chunks) \<and>
      sorted_wrt (<) (map pid (da_data (ps_array sim'))) \<and>
      ob_len (ps_buffer sim') = 0 \<and>
      ob_chunks (ps_buffer sim') = Inr chunks' \<and> concat chunks' = [] \<and>
      (if ob_len (ps_buffer sim) = 0 \<and> list_all alive (da_data (ps_array sim))
       then sim' = sim else ps_kd_tree sim' = None)"
proof -
  obtain s0 where s0: "ParticleSimulation_init junk time_step capacity bucket_capacity None = Inr s0"
    "sim_inv s0" "ps_last_id s0 = - 1"
    using init_inv[OF init_Inr[OF init], of junk time_step] by blast
  then have eq: "s0 = sim0" using init by simp
  have inv0: "sim_inv sim0" and l0: "ps_last_id sim0 = - 1"
    using s0 eq by simp_all
  have nn: "0 \<le> sum_list (map taken recent)" by (rule taken_nonneg)
  have fit0: "ps_last_id sim0 + sum_list (map taken before) < 2 ^ 31"
    using ids l0 nn by simp
  from run_calls_inv[OF inv0 fit0 before]
  have inv1: "sim_inv sim1" and l1: "ps_last_id sim1 = sum_list (map taken before) - 1"
    using l0 by simp_all
  have fit1: "ps_last_id sim1 + sum_list (map taken recent) < 2 ^ 31"
    using ids l1 by simp
  from run_calls_inv[OF inv1 fit1 recent] have inv: "sim_inv sim" by simp
  from run_calls_inserts[OF inv1 fit1 recent nc]
  have st: "map unflag (da_data (ps_array sim)) = map unflag (da_data (ps_array sim1))"
    and ct: "map unflag (ob_content (ps_buffer sim))
       = map unflag (ob_content (ps_buffer sim1) @ inserted (ps_last_id sim1) recent)"
    by simp_all
  obtain chunks1 where chunks1: "ob_chunks (ps_buffer sim1) = Inr chunks1"
    "concat chunks1 = ob_content (ps_buffer sim1)"
    using ob_chunks_content inv1 by (auto simp: sim_inv_def)
  obtain chunks where chunks: "ob_chunks (ps_buffer sim) = Inr chunks"
    "concat chunks = ob_content (ps_buffer sim)"
    using ob_chunks_content inv by (auto simp: sim_inv_def)
  obtain sim' where s': "consolidate junk sim = Inr sim'" "sim_inv sim'"
    "da_data (ps_array sim') = filter alive (da_data (ps_array sim) @ ob_content (ps_buffer sim))"
    "ob_content (ps_buffer sim') = []" "ob_len (ps_buffer sim') = 0"
    "if consolidate_noop sim then sim' = sim else ps_kd_tree sim' = None"
    using consolidate_inv[OF inv, of junk] by blast
  obtain chunks' where chunks': "ob_chunks (ps_buffer sim') = Inr chunks'"
    "concat chunks' = ob_content (ps_buffer sim')"
    using ob_chunks_content s'(2) by (auto simp: sim_inv_def)
  have "sorted_wrt (<) (sim_ids sim')"
    using s'(2) by (simp add: sim_inv_def)
  then have srt: "sorted_wrt (<) (map pid (da_data (ps_array sim')))"
    by (simp add: sim_ids_def s'(4))
  have kd: "if ob_len (ps_buffer sim) = 0 \<and> list_all alive (da_data (ps_array sim))
       then sim' = sim else ps_kd_tree sim' = None"
    using s'(6) by (simp add: consolidate_noop_def)
  have a: "ob_chunks (ps_buffer sim1) = Inr chunks1 \<and> ob_chunks (ps_buffer sim) = Inr chunks"
    using chunks1(1) chunks(1) by simp
  have b: "map unflag (concat chunks)
      = map unflag (concat chunks1 @ inserted (ps_last_id sim1) recent)"
    unfolding chunks(2) chunks1(2) by (rule ct)
  have c: "da_data (ps_array sim') = filter alive (da_data (ps_array sim) @ concat chunks)"
    unfolding chunks(2) by (rule s'(3))
  have d: "concat chunks' = []"
    unfolding chunks'(2) by (rule s'(4))
  have e1: "before = [] \<or> last before = Call Consolidate \<longrightarrow> concat chunks1 = []"
  proof
    assume lc: "before = [] \<or> last before = Call Consolidate"
    show "concat chunks1 = []"
    proof (cases "before = []")
      case True
      then have "sim1 = sim0" using before by simp
      then show ?thesis
        unfolding chunks1(2) using fresh_content[OF init] by simp
    next
      case False
      then have "last before = Call Consolidate" using lc by simp
      with False show ?thesis
        unfolding chunks1(2) by (rule consolidated_content[OF inv0 fit0 before])
    qed
  qed
  show ?thesis
    apply (rule exI[where x = chunks1])
    apply (rule exI[where x = chunks])
    apply (rule exI[where x = sim'])
    apply (rule exI[where x = chunks'])
    apply (intro conjI)
    apply (rule l1)
    apply (rule chunks1(1))
    apply (rule chunks(1))
    apply (rule st)
    apply (rule b)
    apply (rule e1)
    apply (rule s'(1))
    apply (rule c)
    apply (rule srt)
    apply (rule s'(5))
    apply (rule chunks'(1))
    apply (rule d)
    apply (rule kd)
    done
qed

lemma sum_case_Inr:
  "(case x of Inl e \<Rightarrow> False | Inr y \<Rightarrow> P y) \<Longrightarrow> \<exists>y. x = Inr y \<and> P y"
  by (cases x) simp_all

lemma option_sum_case_Inr:
  "(case x of None \<Rightarrow> False | Some (Inl e) \<Rightarrow> False | Some (Inr y) \<Rightarrow> P y)
     \<Longrightarrow> \<exists>y. x = Some (Inr y) \<and> P y"
  by (auto split: option.splits sum.splits)

theorem consolidate_after_calls_witness:
  "\<exists>sim0 sim1 sim.
     ParticleSimulation_init (\<lambda>_. default_particle) (1 / 50) 4 2 None = Inr sim0 \<and>
     run_calls (\<lambda>_. default_particle) 10
       [Call (AddParticle (\<lambda>p. p\<lparr>position := (5, 5)\<rparr>)), Call (AddParticle (\<lambda>p. p)),
        Call Consolidate] sim0 = Some (Inr sim1) \<and>
     run_calls (\<lambda>_. default_particle) 10
       [Query (0, 0) (Some 1) None False, Call (AddParticle (\<lambda>p. p)), Call (AddParticles 2),
        Call (SetAlive (InStore 0) False), Call (SetAlive (InBucket 0 0) False)] sim1
       = Some (Inr sim) \<and>
     map_option kd_n (ps_kd_tree sim) = Some 2 \<and>
     (\<exists>chunks1 chunks sim' chunks'.
        ps_last_id sim1 = 1 \<and>
        ob_chunks (ps_buffer sim1) = Inr chunks1 \<and> ob_chunks (ps_buffer sim) = Inr chunks \<and>
        map unflag (da_data (ps_array sim)) = map unflag (da_data (ps_array sim1)) \<and>
        map unflag (concat chunks)
          = map unflag (concat chunks1 @
              [default_particle\<lparr>pid := 2\<rparr>, default_particle\<lparr>pid := 3\<rparr>,
               default_particle\<lparr>pid := 4\<rparr>]) \<and>
        concat chunks1 = [] \<and>
        consolidate (\<lambda>_. default_particle) sim = Inr sim' \<and>
        da_data (ps_array sim') = filter alive (da_data (ps_array sim) @ concat chunks) \<and>
        sorted_wrt (<) (map pid (da_data (ps_array sim'))) \<and>
        ob_len (ps_buffer sim') = 0 \<and>
        ob_chunks (ps_buffer sim') = Inr chunks' \<and> concat chunks' = [] \<and>
        ps_kd_tree sim' = None \<and>
        map pid (da_data (ps_array sim')) = [1, 3, 4])"
proof -
  let ?junk = "\<lambda>_::nat. default_particle"
  let ?before = "[Call (AddParticle (\<lambda>p. p\<lparr>position := (5, 5)\<rparr>)), Call (AddParticle (\<lambda>p. p)),
        Call Consolidate]"
  let ?recent = "[Query (0, 0) (Some 1) None False, Call (AddParticle (\<lambda>p. p)), Call (AddParticles 2),
        Call (SetAlive (InStore 0) False), Call (SetAlive (InBucket 0 0) False)]"
  have "case ParticleSimulation_init ?junk (1 / 50) 4 2 None of
          Inl e \<Rightarrow> False
        | Inr sim0 \<Rightarrow>
            (case run_calls ?junk 10 ?before sim0 of
               None \<Rightarrow> False
             | Some (Inl e) \<Rightarrow> False
             | Some (Inr sim1) \<Rightarrow>
                 (case run_calls ?junk 10 ?recent sim1 of
                    None \<Rightarrow> False
                  | Some (Inl e) \<Rightarrow> False
                  | Some (Inr sim) \<Rightarrow>
                      (case consolidate ?junk sim of
                         Inl e \<Rightarrow> False
                       | Inr sim' \<Rightarrow>
                           map pid (da_data (ps_array sim')) = [1, 3, 4] \<and>
                           map_option kd_n (ps_kd_tree sim) = Some 2 \<and>
                           \<not> (ob_len (ps_buffer sim) = 0
                               \<and> list_all alive (da_data (ps_array sim))))))"
    by code_simp
  then obtain sim0 where
    init: "ParticleSimulation_init ?junk (1 / 50) 4 2 None = Inr sim0"
    and r0: "case run_calls ?junk 10 ?before sim0 of
               None \<Rightarrow> False
             | Some (Inl e) \<Rightarrow> False
             | Some (Inr sim1) \<Rightarrow>
                 (case run_calls ?junk 10 ?recent sim1 of
                    None \<Rightarrow> False
                  | Some (Inl e) \<Rightarrow> False
                  | Some (Inr sim) \<Rightarrow>
                      (case consolidate ?junk sim of
                         Inl e \<Rightarrow> False
                       | Inr sim' \<Rightarrow>
                           map pid (da_data (ps_array sim')) = [1, 3, 4] \<and>
                           map_option kd_n (ps_kd_tree sim) = Some 2 \<and>
                           \<not> (ob_len (ps_buffer sim) = 0
                               \<and> list_all alive (da_data (ps_array sim)))))"
    by (blast dest: sum_case_Inr)
  from option_sum_case_Inr[OF r0] obtain sim1 where
    before: "run_calls ?junk 10 ?before sim0 = Some (Inr sim1)"
    and r1: "case run_calls ?junk 10 ?recent sim1 of
                    None \<Rightarrow> False
                  | Some (Inl e) \<Rightarrow> False
                  | Some (Inr sim) \<Rightarrow>
                      (case consolidate ?junk sim of
                         Inl e \<Rightarrow> False
                       | Inr sim' \<Rightarrow>
                           map pid (da_data (ps_array sim')) = [1, 3, 4] \<and>
                           map_option kd_n (ps_kd_tree sim) = Some 2 \<and>
                           \<not> (ob_len (ps_buffer sim) = 0
                               \<and> list_all alive (da_data (ps_array sim))))"
    by blast
  from option_sum_case_Inr[OF r1] obtain sim where
    recent: "run_calls ?junk 10 ?recent sim1 = Some (Inr sim)"
    and r2: "case consolidate ?junk sim of
                         Inl e \<Rightarrow> False
                       | Inr sim' \<Rightarrow>
                           map pid (da_data (ps_array sim')) = [1, 3, 4] \<and>
                           map_option kd_n (ps_kd_tree sim) = Some 2 \<and>
                           \<not> (ob_len (ps_buffer sim) = 0
                               \<and> list_all alive (da_data (ps_array sim)))"
    by blast
  from sum_case_Inr[OF r2] obtain sim2 where
    c: "consolidate ?junk sim = Inr sim2" "map pid (da_data (ps_array sim2)) = [1, 3, 4]"
    and kd: "map_option kd_n (ps_kd_tree sim) = Some 2"
    and nn: "\<not> (ob_len (ps_buffer sim) = 0 \<and> list_all alive (da_data (ps_array sim)))"
    by (elim exE conjE) (rule that, assumption+)
  have nc: "Call Consolidate \<notin> set ?recent"
    by simp
  have ids: "sum_list (map taken (?before @ ?recent)) \<le> 2 ^ 31"
    by simp
  have ins: "inserted 1 ?recent = [default_particle\<lparr>pid := 2\<rparr>, default_particle\<lparr>pid := 3\<rparr>,
               default_particle\<lparr>pid := 4\<rparr>]"
    by (simp add: upt_rec)
  from consolidate_after_calls[OF init before recent nc ids] obtain chunks1 chunks sim' chunks'
    where r: "ps_last_id sim1 = sum_list (map taken ?before) - 1"
      "ob_chunks (ps_buffer sim1) = Inr chunks1" "ob_chunks (ps_buffer sim) = Inr chunks"
      "map unflag (da_data (ps_array sim)) = map unflag (da_data (ps_array sim1))"
      "map unflag (concat chunks) = map unflag (concat chunks1 @ inserted (ps_last_id sim1) ?recent)"
      "consolidate ?junk sim = Inr sim'"
      "?before = [] \<or> last ?before = Call Consolidate \<longrightarrow> concat chunks1 = []"
      "da_data (ps_array sim') = filter alive (da_data (ps_array sim) @ concat chunks)"
      "sorted_wrt (<) (map pid (da_data (ps_array sim')))"
      "ob_len (ps_buffer sim') = 0"
      "ob_chunks (ps_buffer sim') = Inr chunks'" "concat chunks' = []"
      "if ob_len (ps_buffer sim) = 0 \<and> list_all alive (da_data (ps_array sim))
       then sim' = sim else ps_kd_tree sim' = None"
    by blast
  have l1: "ps_last_id sim1 = 1" using r(1) by simp
  have e: "sim' = sim2" using r(6) c(1) by simp
  have k: "ps_kd_tree sim' = None" using r(13) nn by (simp only: if_False)
  have c1: "concat chunks1 = []" using r(7) by simp
  have i: "map unflag (concat chunks)
          = map unflag (concat chunks1 @
              [default_particle\<lparr>pid := 2\<rparr>, default_particle\<lparr>pid := 3\<rparr>,
               default_particle\<lparr>pid := 4\<rparr>])"
    using r(5) unfolding l1 ins .
  have p: "map pid (da_data (ps_array sim')) = [1, 3, 4]" unfolding e by (rule c(2))
  show ?thesis
    apply (rule exI[where x = sim0])
    apply (rule exI[where x = sim1])
    apply (rule exI[where x = sim])
    apply (intro conjI)
    apply (rule init)
    apply (rule before)
    apply (rule recent)
    apply (rule kd)
    apply (rule exI[where x = chunks1])
    apply (rule exI[where x = chunks])
    apply (rule exI[where x = sim'])
    apply (rule exI[where x = chunks'])
    apply (intro conjI)
    apply (rule l1)
    apply (rule r(2))
    apply (rule r(3))
    apply (rule r(4))
    apply (rule i)
    apply (rule c1)
    apply (rule r(6))
    apply (rule r(8))
    apply (rule r(9))
    apply (rule r(10))
    apply (rule r(11))
    apply (rule r(12))
    apply (rule k)
    apply (rule p)
    done
qed

theorem consolidate_keeps_index_counterexample:
  "\<exists>sim0 sim sim'.
     ParticleSimulation_init (\<lambda>_. default_particle) (1 / 50) 4 2 None = Inr sim0 \<and>
     run_calls (\<lambda>_. default_particle) 10
       [Call (AddParticle (\<lambda>p. p\<lparr>position := (5, 5)\<rparr>)), Call Consolidate,
        Query (0, 0) (Some 1) None False] sim0 = Some (Inr sim) \<and>
     consolidate (\<lambda>_. default_particle) sim = Inr sim' \<and>
     sim' = sim \<and>
     map_option kd_data (ps_kd_tree sim') = Some [(5, 5)]"
proof -
  let ?junk = "\<lambda>_::nat. default_particle"
  let ?calls = "[Call (AddParticle (\<lambda>p. p\<lparr>position := (5, 5)\<rparr>)), Call Consolidate,
        Query (0, 0) (Some 1) None False]"
  have "case ParticleSimulation_init ?junk (1 / 50) 4 2 None of
          Inl e \<Rightarrow> False
        | Inr sim0 \<Rightarrow>
            (case run_calls ?junk 10 ?calls sim0 of
               None \<Rightarrow> False
             | Some (Inl e) \<Rightarrow> False
             | Some (Inr sim) \<Rightarrow>
                 consolidate ?junk sim = Inr sim \<and>
                 map_option kd_data (ps_kd_tree sim) = Some [(5, 5)])"
    by code_simp
  then obtain sim0 where
    init: "ParticleSimulation_init ?junk (1 / 50) 4 2 None = Inr sim0"
    and r0: "case run_calls ?junk 10 ?calls sim0 of
               None \<Rightarrow> False
             | Some (Inl e) \<Rightarrow> False
             | Some (Inr sim) \<Rightarrow>
                 consolidate ?junk sim = Inr sim \<and>
                 map_option kd_data (ps_kd_tree sim) = Some [(5, 5)]"
    by (blast dest: sum_case_Inr)
  from option_sum_case_Inr[OF r0] obtain sim where
    run: "run_calls ?junk 10 ?calls sim0 = Some (Inr sim)"
    and noop: "consolidate ?junk sim = Inr sim"
    and kd: "map_option kd_data (ps_kd_tree sim) = Some [(5, 5)]"
    by blast
  show ?thesis
    apply (rule exI[where x = sim0])
    apply (rule exI[where x = sim])
    apply (rule exI[where x = sim])
    apply (intro conjI)
    apply (rule init)
    apply (rule run)
    apply (rule noop)
    apply (rule refl)
    apply (rule kd)
    done
qed

section \<open>The simulation worker: flow control and the clock\<close>

text \<open>The times of the update messages in the pipe, in the order they were sent.\<close>

fun update_times :: "sent list \<Rightarrow> real list" where
  "update_times [] = []"
| "update_times (Message (MESSAGE_SIM_UPDATE t) # xs) = t # update_times xs"
| "update_times (x # xs) = update_times xs"

definition is_request :: "message \<Rightarrow> bool" where
  "is_request m = (case m of MESSAGE_REQUEST_SIM_UPDATE \<Rightarrow> True | _ \<Rightarrow> False)"

definition requests :: "message list \<Rightarrow> nat" where
  "requests ms = length (filter is_request ms)"

text \<open>
  A callback that leaves the clock alone: the simulation exposes \<^verbatim>\<open>time\<close> and \<^verbatim>\<open>time_step\<close>
  as read-only properties.
\<close>

definition clock_preserving :: "callback \<Rightarrow> bool" where
  "clock_preserving cb =
     (\<forall>s s'. cb s = Inr s' \<longrightarrow> ps_time s' = ps_time s \<and> ps_time_step s' = ps_time_step s)"

fun message_callbacks :: "message \<Rightarrow> callback list" where
  "message_callbacks (MESSAGE_RUN_CALLBACKS callbacks) = callbacks"
| "message_callbacks m = []"

definition schedule_callbacks :: "(message option \<times> message list) list \<Rightarrow> callback list" where
  "schedule_callbacks inputs = concat (map (\<lambda>input. concat (map message_callbacks (snd input))) inputs)"

lemma update_times_append: "update_times (xs @ ys) = update_times xs @ update_times ys"
  by (induction xs rule: update_times.induct) simp_all

lemma requests_append: "requests (xs @ ys) = requests xs + requests ys"
  by (simp add: requests_def)

lemma drain_fields:
  "w_sim (drain ms w) = w_sim w" "w_step (drain ms w) = w_step w"
  "w_to_gui (drain ms w) = w_to_gui w" "w_from_gui (drain ms w) = w_from_gui w @ ms"
  by (induction ms arbitrary: w) (simp_all split: message.splits)

lemma drain_send: "w_send (drain ms w) = (w_send w \<or> 0 < requests ms)"
  by (induction ms arbitrary: w) (auto simp: requests_def is_request_def split: message.splits)

definition callbacks_ok :: "callback list option \<Rightarrow> bool" where
  "callbacks_ok c = (case c of None \<Rightarrow> True | Some cbs \<Rightarrow> list_all clock_preserving cbs)"

lemma drain_callbacks:
  assumes "callbacks_ok (w_callbacks w)"
    and "\<forall>m\<in>set ms. list_all clock_preserving (message_callbacks m)"
  shows "callbacks_ok (w_callbacks (drain ms w))"
  using assms
proof (induction ms arbitrary: w)
  case Nil
  then show ?case by simp
next
  case (Cons m ms)
  let ?w = "(case m of
           MESSAGE_REQUEST_SIM_UPDATE \<Rightarrow> w\<lparr>w_send := True\<rparr>
         | MESSAGE_RUN_CALLBACKS callbacks \<Rightarrow> w\<lparr>w_callbacks := Some callbacks\<rparr>
         | _ \<Rightarrow> w)\<lparr>w_from_gui := w_from_gui w @ [m]\<rparr>"
  have "callbacks_ok (w_callbacks ?w)"
    using Cons.prems by (cases m) (simp_all add: callbacks_ok_def)
  moreover have "\<forall>m\<in>set ms. list_all clock_preserving (message_callbacks m)"
    using Cons.prems(2) by simp
  ultimately have "callbacks_ok (w_callbacks (drain ms ?w))" by (rule Cons.IH)
  then show ?case by simp
qed

lemma step_block_fields:
  assumes "step_block junk presolve_callback postsolve_callback w = Inr w'"
  shows "w_to_gui w' = w_to_gui w" and "w_from_gui w' = w_from_gui w"
    and "w_send w' = w_send w" and "\<not> w_step w'"
  using assms
  by (auto simp: step_block_def bind_err_eq_Inr split: if_splits option.splits)

text \<open>
  Flow control: the updates sent, and the one about to be sent, are covered by requests
  received.
\<close>

definition flow :: "worker \<Rightarrow> bool" where
  "flow w = (length (update_times (w_to_gui w)) + (if w_send w then 1 else 0)
               \<le> requests (w_from_gui w))"

lemma drain_flow: "flow w \<Longrightarrow> flow (drain ms w)"
  by (auto simp: flow_def drain_fields drain_send requests_append)

lemma send_block_flow: "flow w \<Longrightarrow> flow (send_block w)"
  by (auto simp: flow_def send_block_def update_times_append split: if_splits)

lemma iteration_flow:
  assumes "flow w" and "iteration junk presolve_callback postsolve_callback input w = (e, w')"
  shows "flow w'"
proof (cases "fst input = Some MESSAGE_STOP")
  case True
  then show ?thesis using assms by (simp add: iteration_def)
next
  case False
  let ?w1 = "drain (snd input) w"
  have f1: "flow ?w1" using assms(1) by (rule drain_flow)
  have it: "iteration junk presolve_callback postsolve_callback input w =
      (case step_block junk presolve_callback postsolve_callback ?w1 of
         Inl e \<Rightarrow> (Raised e, ?w1) | Inr w2 \<Rightarrow> (Running, send_block w2))"
    using False by (simp add: iteration_def Let_def split: option.splits message.splits)
  show ?thesis
  proof (cases "step_block junk presolve_callback postsolve_callback ?w1")
    case (Inl err)
    then show ?thesis using assms(2) f1 by (simp add: it)
  next
    case (Inr w2)
    have "flow w2"
      using f1 step_block_fields(1-3)[OF Inr] by (simp add: flow_def)
    then have "flow (send_block w2)" by (rule send_block_flow)
    then show ?thesis using assms(2) Inr by (simp add: it)
  qed
qed

lemma worker_loop_flow:
  "flow w \<Longrightarrow> worker_loop junk presolve_callback postsolve_callback inputs w = (e, w') \<Longrightarrow> flow w'"
proof (induction inputs arbitrary: w)
  case Nil
  then show ?case by simp
next
  case (Cons input inputs)
  obtain e1 w1 where it: "iteration junk presolve_callback postsolve_callback input w = (e1, w1)"
    by (cases "iteration junk presolve_callback postsolve_callback input w")
  have f1: "flow w1" using Cons.prems(1) it by (rule iteration_flow)
  show ?case
  proof (cases e1)
    case Running
    then have "worker_loop junk presolve_callback postsolve_callback inputs w1 = (e, w')"
      using Cons.prems(2) it by simp
    with f1 show ?thesis by (rule Cons.IH)
  next
    case Stopped
    then show ?thesis using Cons.prems(2) it f1 by simp
  next
    case (Raised err)
    then show ?thesis using Cons.prems(2) it f1 by simp
  qed
qed

lemma run_callbacks_clock:
  assumes "list_all clock_preserving cbs" and "run_callbacks cbs s = Inr s'"
  shows "ps_time s' = ps_time s \<and> ps_time_step s' = ps_time_step s"
  using assms
proof (induction cbs arbitrary: s)
  case Nil
  then show ?case by simp
next
  case (Cons cb cbs)
  from Cons.prems(2) obtain s1 where s1: "cb s = Inr s1" "run_callbacks cbs s1 = Inr s'"
    by (auto simp: bind_err_eq_Inr)
  have cb: "clock_preserving cb" and cbs: "list_all clock_preserving cbs"
    using Cons.prems(1) by simp_all
  have "ps_time s1 = ps_time s \<and> ps_time_step s1 = ps_time_step s"
    using cb s1(1) by (simp add: clock_preserving_def)
  moreover have "ps_time s' = ps_time s1 \<and> ps_time_step s' = ps_time_step s1"
    using cbs s1(2) by (rule Cons.IH)
  ultimately show ?case by simp
qed

lemma consolidate_clock:
  assumes "consolidate junk s = Inr s'"
  shows "ps_time s' = ps_time s \<and> ps_time_step s' = ps_time_step s"
  using assms
  by (auto simp: consolidate_def Let_def bind_err_eq_Inr split: if_splits)

lemma run_callback_clock:
  assumes "\<forall>cb\<in>set_option c. clock_preserving cb" and "run_callback junk c s = Inr s'"
  shows "ps_time s' = ps_time s \<and> ps_time_step s' = ps_time_step s"
proof (cases c)
  case None
  then show ?thesis using assms(2) by (simp add: run_callback_def)
next
  case (Some cb)
  then obtain s1 where s1: "cb s = Inr s1" "consolidate junk s1 = Inr s'"
    using assms(2) by (auto simp: run_callback_def bind_err_eq_Inr)
  have "clock_preserving cb" using assms(1) Some by simp
  then have "ps_time s1 = ps_time s \<and> ps_time_step s1 = ps_time_step s"
    using s1(1) by (simp add: clock_preserving_def)
  then show ?thesis using consolidate_clock[OF s1(2)] by simp
qed

lemma step_clock:
  assumes "\<forall>cb\<in>set_option presolve_callback. clock_preserving cb"
    and "\<forall>cb\<in>set_option postsolve_callback. clock_preserving cb"
    and "step junk presolve_callback postsolve_callback s = Inr s'"
  shows "ps_time s' = ps_time s + ps_time_step s \<and> ps_time_step s' = ps_time_step s"
proof -
  let ?s1 = "s\<lparr>ps_time := ps_time s + ps_time_step s\<rparr>"
  from assms(3) obtain s2 where s2: "run_callback junk presolve_callback ?s1 = Inr s2"
    and s3: "run_callback junk postsolve_callback
       (s2\<lparr>ps_array := da_write (ps_array s2)
              (zero_force (solve (da_data (ps_array s2)) (ps_time_step s2)))\<rparr>) = Inr s'"
    by (auto simp: step_def Let_def bind_err_eq_Inr)
  show ?thesis
    using run_callback_clock[OF assms(1) s2] run_callback_clock[OF assms(2) s3] by simp
qed

text \<open>
  The clock of the worker: the updates sent carry the times of the first steps, one step
  each, and the simulation is one step ahead of the last update unless a step is due.
\<close>

definition clock :: "real \<Rightarrow> real \<Rightarrow> worker \<Rightarrow> bool" where
  "clock t0 dt w =
     (ps_time_step (w_sim w) = dt
      \<and> callbacks_ok (w_callbacks w)
      \<and> update_times (w_to_gui w)
          = map (\<lambda>k. t0 + real k * dt) [1..<Suc (length (update_times (w_to_gui w)))]
      \<and> ps_time (w_sim w)
          = t0 + real (if w_step w then length (update_times (w_to_gui w))
                       else Suc (length (update_times (w_to_gui w)))) * dt)"

lemma step_block_clock:
  assumes pre: "\<forall>cb\<in>set_option presolve_callback. clock_preserving cb"
    and post: "\<forall>cb\<in>set_option postsolve_callback. clock_preserving cb"
    and c: "clock t0 dt w"
    and sb: "step_block junk presolve_callback postsolve_callback w = Inr w'"
  shows "clock t0 dt w'"
proof (cases "w_step w")
  case False
  then show ?thesis using c sb by (simp add: step_block_def)
next
  case True
  have "\<exists>w1. step_block junk presolve_callback postsolve_callback w
           = bind_err (step junk presolve_callback postsolve_callback (w_sim w1))
               (\<lambda>sim. Inr (w1\<lparr>w_sim := sim, w_step := False\<rparr>))
         \<and> ps_time (w_sim w1) = ps_time (w_sim w) \<and> ps_time_step (w_sim w1) = ps_time_step (w_sim w)
         \<and> w_to_gui w1 = w_to_gui w \<and> callbacks_ok (w_callbacks w1)"
  proof (cases "w_callbacks w")
    case None
    then show ?thesis using True c by (auto simp: step_block_def clock_def)
  next
    case (Some cbs)
    have ok: "list_all clock_preserving cbs" using c Some by (simp add: clock_def callbacks_ok_def)
    from sb True Some obtain s1 s2 where
      s1: "run_callbacks cbs (w_sim w) = Inr s1" and s2: "consolidate junk s1 = Inr s2"
      by (auto simp: step_block_def bind_err_eq_Inr)
    have "ps_time s2 = ps_time (w_sim w) \<and> ps_time_step s2 = ps_time_step (w_sim w)"
      using run_callbacks_clock[OF ok s1] consolidate_clock[OF s2] by simp
    then show ?thesis
      using True Some s1 s2
      by (intro exI[where x = "w\<lparr>w_sim := s2, w_callbacks := None\<rparr>"])
        (simp add: step_block_def callbacks_ok_def)
  qed
  then obtain w1 where eq: "step_block junk presolve_callback postsolve_callback w
           = bind_err (step junk presolve_callback postsolve_callback (w_sim w1))
               (\<lambda>sim. Inr (w1\<lparr>w_sim := sim, w_step := False\<rparr>))"
    and w1: "ps_time (w_sim w1) = ps_time (w_sim w)" "ps_time_step (w_sim w1) = ps_time_step (w_sim w)"
      "w_to_gui w1 = w_to_gui w" "callbacks_ok (w_callbacks w1)"
    by blast
  from sb obtain s where s: "step junk presolve_callback postsolve_callback (w_sim w1) = Inr s"
    and w': "w' = w1\<lparr>w_sim := s, w_step := False\<rparr>"
    unfolding eq by (auto simp: bind_err_eq_Inr)
  have "ps_time s = ps_time (w_sim w1) + ps_time_step (w_sim w1) \<and>
        ps_time_step s = ps_time_step (w_sim w1)"
    using pre post s by (rule step_clock)
  then show ?thesis
    using c True w1 unfolding w' clock_def by (simp add: algebra_simps)
qed

lemma send_block_clock:
  assumes "clock t0 dt w" and "\<not> w_step w"
  shows "clock t0 dt (send_block w)"
proof (cases "w_send w")
  case False
  then show ?thesis using assms(1) by (simp add: send_block_def)
next
  case True
  let ?ts = "update_times (w_to_gui w)"
  have ts: "?ts = map (\<lambda>k. t0 + real k * dt) [1..<Suc (length ?ts)]"
    and t: "ps_time (w_sim w) = t0 + real (Suc (length ?ts)) * dt"
    using assms by (simp_all add: clock_def)
  have "?ts @ [ps_time (w_sim w)] = map (\<lambda>k. t0 + real k * dt) [1..<Suc (Suc (length ?ts))]"
    using ts t by simp
  then show ?thesis
    using True assms(1) t
    by (simp add: send_block_def clock_def update_times_append)
qed

lemma iteration_clock:
  assumes pre: "\<forall>cb\<in>set_option presolve_callback. clock_preserving cb"
    and post: "\<forall>cb\<in>set_option postsolve_callback. clock_preserving cb"
    and ms: "\<forall>m\<in>set (snd input). list_all clock_preserving (message_callbacks m)"
    and c: "clock t0 dt w"
    and it: "iteration junk presolve_callback postsolve_callback input w = (e, w')"
  shows "clock t0 dt w'"
proof (cases "fst input = Some MESSAGE_STOP")
  case True
  then show ?thesis using c it by (simp add: iteration_def)
next
  case False
  let ?w1 = "drain (snd input) w"
  have "callbacks_ok (w_callbacks ?w1)"
    using c ms by (intro drain_callbacks) (simp_all add: clock_def)
  then have c1: "clock t0 dt ?w1"
    using c by (simp add: clock_def drain_fields)
  have eq: "iteration junk presolve_callback postsolve_callback input w =
      (case step_block junk presolve_callback postsolve_callback ?w1 of
         Inl e \<Rightarrow> (Raised e, ?w1) | Inr w2 \<Rightarrow> (Running, send_block w2))"
    using False by (simp add: iteration_def Let_def split: option.splits message.splits)
  show ?thesis
  proof (cases "step_block junk presolve_callback postsolve_callback ?w1")
    case (Inl err)
    then show ?thesis using it c1 by (simp add: eq)
  next
    case (Inr w2)
    have "clock t0 dt w2" using pre post c1 Inr by (rule step_block_clock)
    moreover have "\<not> w_step w2" using Inr by (rule step_block_fields(4))
    ultimately have "clock t0 dt (send_block w2)" by (rule send_block_clock)
    then show ?thesis using it Inr by (simp add: eq)
  qed
qed

lemma worker_loop_clock:
  assumes pre: "\<forall>cb\<in>set_option presolve_callback. clock_preserving cb"
    and post: "\<forall>cb\<in>set_option postsolve_callback. clock_preserving cb"
  shows "\<forall>cb\<in>set (schedule_callbacks inputs). clock_preserving cb \<Longrightarrow> clock t0 dt w \<Longrightarrow>
     worker_loop junk presolve_callback postsolve_callback inputs w = (e, w') \<Longrightarrow> clock t0 dt w'"
proof (induction inputs arbitrary: w)
  case Nil
  then show ?case by simp
next
  case (Cons input inputs)
  have ms: "\<forall>m\<in>set (snd input). list_all clock_preserving (message_callbacks m)"
    using Cons.prems(1) by (auto simp: schedule_callbacks_def list_all_iff)
  have rest: "\<forall>cb\<in>set (schedule_callbacks inputs). clock_preserving cb"
    using Cons.prems(1) by (auto simp: schedule_callbacks_def)
  obtain e1 w1 where it: "iteration junk presolve_callback postsolve_callback input w = (e1, w1)"
    by (cases "iteration junk presolve_callback postsolve_callback input w")
  have c1: "clock t0 dt w1" using pre post ms Cons.prems(2) it by (rule iteration_clock)
  show ?case
  proof (cases e1)
    case Running
    then have "worker_loop junk presolve_callback postsolve_callback inputs w1 = (e, w')"
      using Cons.prems(3) it by simp
    with rest c1 show ?thesis by (rule Cons.IH)
  next
    case Stopped
    then show ?thesis using Cons.prems(3) it c1 by simp
  next
    case (Raised err)
    then show ?thesis using Cons.prems(3) it c1 by simp
  qed
qed

lemma initial_worker_flow: "flow (initial_worker sim)"
  by (simp add: flow_def initial_worker_def)

lemma initial_worker_clock: "clock (ps_time sim) (ps_time_step sim) (initial_worker sim)"
  by (simp add: clock_def initial_worker_def callbacks_ok_def)

lemma clock_increasing:
  assumes "clock t0 dt w" and "0 < dt"
  shows "sorted_wrt (<) (update_times (w_to_gui w))"
proof -
  let ?n = "length (update_times (w_to_gui w))"
  have "sorted_wrt (<) [1..<Suc ?n]" by (rule sorted_wrt_upt)
  then have "sorted_wrt (\<lambda>j k. t0 + real j * dt < t0 + real k * dt) [1..<Suc ?n]"
    by (rule sorted_wrt_mono_rel[rotated]) (use assms(2) in simp)
  then have "sorted_wrt (<) (map (\<lambda>k. t0 + real k * dt) [1..<Suc ?n])"
    by (simp only: sorted_wrt_map)
  then show ?thesis using assms(1) by (simp add: clock_def)
qed

lemma apply_op_clock: "clock_preserving (apply_op junk x)"
proof -
  have "ps_time s' = ps_time s \<and> ps_time_step s' = ps_time_step s"
    if "apply_op junk x s = Inr s'" for s s'
  proof (cases x)
    case (AddParticle kwargs)
    then show ?thesis
      using that by (auto simp: add_particle_def Let_def bind_err_eq_Inr)
  next
    case (AddParticles count)
    then show ?thesis
      using that by (auto simp: add_particles_def Let_def bind_err_eq_Inr split: if_splits)
  next
    case (SetAlive h v)
    then show ?thesis
      using that by (cases h) (auto simp: set_alive_def mutate_def)
  next
    case Consolidate
    then show ?thesis
      using that consolidate_clock[of junk s s'] by simp
  qed
  then show ?thesis
    unfolding clock_preserving_def by blast
qed

text \<open>
  Claim C9, as the code has it. Whatever the schedule of messages, and however the loop
  ends, the update messages sent are at most as many as the update requests received.
  When no callback (of a \<^verbatim>\<open>_MESSAGE_RUN_CALLBACKS\<close> message, or the presolve and
  postsolve callbacks of the simulation) touches the clock, there is exactly one step
  between two updates: the update of rank \<open>k\<close> carries the time of the simulation handed
  to the worker plus \<open>k\<close> time steps. The times are then strictly increasing when the
  time step is positive, which nothing checks.
\<close>

theorem worker_updates:
  assumes "worker_loop junk presolve_callback postsolve_callback inputs (initial_worker sim) = (e, w)"
  shows "length (update_times (w_to_gui w)) \<le> requests (w_from_gui w)
    \<and> ((\<forall>cb\<in>set (schedule_callbacks inputs) \<union> set_option presolve_callback
                   \<union> set_option postsolve_callback. clock_preserving cb)
       \<longrightarrow> update_times (w_to_gui w)
             = map (\<lambda>k. ps_time sim + real k * ps_time_step sim)
                 [1..<Suc (length (update_times (w_to_gui w)))]
           \<and> (0 < ps_time_step sim \<longrightarrow> sorted_wrt (<) (update_times (w_to_gui w))))"
proof (intro conjI impI)
  have "flow w"
    using initial_worker_flow assms by (rule worker_loop_flow)
  then show "length (update_times (w_to_gui w)) \<le> requests (w_from_gui w)"
    by (simp add: flow_def split: if_splits)
next
  assume h: "\<forall>cb\<in>set (schedule_callbacks inputs) \<union> set_option presolve_callback
                   \<union> set_option postsolve_callback. clock_preserving cb"
  then have pre: "\<forall>cb\<in>set_option presolve_callback. clock_preserving cb"
    and post: "\<forall>cb\<in>set_option postsolve_callback. clock_preserving cb"
    and sch: "\<forall>cb\<in>set (schedule_callbacks inputs). clock_preserving cb"
    by blast+
  have c: "clock (ps_time sim) (ps_time_step sim) w"
    using pre post sch initial_worker_clock assms by (rule worker_loop_clock)
  then show "update_times (w_to_gui w)
             = map (\<lambda>k. ps_time sim + real k * ps_time_step sim)
                 [1..<Suc (length (update_times (w_to_gui w)))]"
    by (simp add: clock_def)
  assume dt: "0 < ps_time_step sim"
  show "sorted_wrt (<) (update_times (w_to_gui w))"
    using c dt by (rule clock_increasing)
qed

theorem worker_updates_witness:
  "\<exists>sim e w.
     ParticleSimulation_init (\<lambda>_. default_particle) (1 / 50) 4 2 None = Inr sim \<and>
     worker_loop (\<lambda>_. default_particle) None None
       [(None, [MESSAGE_REQUEST_SIM_UPDATE]),
        (None, [MESSAGE_RUN_CALLBACKS [apply_op (\<lambda>_. default_particle) (AddParticle (\<lambda>p. p))],
                MESSAGE_REQUEST_SIM_UPDATE, MESSAGE_REQUEST_SIM_UPDATE]),
        (None, []),
        (Some MESSAGE_STOP, [MESSAGE_REQUEST_SIM_UPDATE])] (initial_worker sim) = (e, w) \<and>
     requests (w_from_gui w) = 3 \<and>
     length (update_times (w_to_gui w)) \<le> requests (w_from_gui w) \<and>
     update_times (w_to_gui w) = [1 / 50, 1 / 25] \<and>
     update_times (w_to_gui w)
       = map (\<lambda>k. ps_time sim + real k * ps_time_step sim)
           [1..<Suc (length (update_times (w_to_gui w)))] \<and>
     sorted_wrt (<) (update_times (w_to_gui w))"
proof -
  let ?junk = "\<lambda>_::nat. default_particle"
  let ?cb = "apply_op ?junk (AddParticle (\<lambda>p. p))"
  let ?inputs = "[(None, [MESSAGE_REQUEST_SIM_UPDATE]),
        (None, [MESSAGE_RUN_CALLBACKS [?cb],
                MESSAGE_REQUEST_SIM_UPDATE, MESSAGE_REQUEST_SIM_UPDATE]),
        (None, []),
        (Some MESSAGE_STOP, [MESSAGE_REQUEST_SIM_UPDATE])]"
  have "case ParticleSimulation_init ?junk (1 / 50) 4 2 None of
          Inl e \<Rightarrow> False
        | Inr sim \<Rightarrow>
            ps_time_step sim = 1 / 50 \<and>
            requests (w_from_gui (snd (worker_loop ?junk None None ?inputs (initial_worker sim)))) = 3 \<and>
            update_times (w_to_gui (snd (worker_loop ?junk None None ?inputs (initial_worker sim))))
              = [1 / 50, 1 / 25]"
    by code_simp
  then obtain sim where
    init: "ParticleSimulation_init ?junk (1 / 50) 4 2 None = Inr sim"
    and r: "ps_time_step sim = 1 / 50 \<and>
            requests (w_from_gui (snd (worker_loop ?junk None None ?inputs (initial_worker sim)))) = 3 \<and>
            update_times (w_to_gui (snd (worker_loop ?junk None None ?inputs (initial_worker sim))))
              = [1 / 50, 1 / 25]"
    by (blast dest: sum_case_Inr)
  obtain e w where run: "worker_loop ?junk None None ?inputs (initial_worker sim) = (e, w)"
    by (cases "worker_loop ?junk None None ?inputs (initial_worker sim)")
  have dt: "0 < ps_time_step sim"
    and req: "requests (w_from_gui w) = 3"
    and ts: "update_times (w_to_gui w) = [1 / 50, 1 / 25]"
    using r unfolding run by simp_all
  have "clock_preserving ?cb" by (rule apply_op_clock)
  then have cbs: "\<forall>cb\<in>set (schedule_callbacks ?inputs) \<union> set_option None \<union> set_option None.
       clock_preserving cb"
    by (simp add: schedule_callbacks_def)
  note u = worker_updates[OF run]
  have le: "length (update_times (w_to_gui w)) \<le> requests (w_from_gui w)"
    using u by (rule conjunct1)
  have rest: "update_times (w_to_gui w)
             = map (\<lambda>k. ps_time sim + real k * ps_time_step sim)
                 [1..<Suc (length (update_times (w_to_gui w)))]
           \<and> (0 < ps_time_step sim \<longrightarrow> sorted_wrt (<) (update_times (w_to_gui w)))"
    using u[THEN conjunct2] cbs by (rule mp)
  have srt: "sorted_wrt (<) (update_times (w_to_gui w))"
    using rest[THEN conjunct2] dt by (rule mp)
  show ?thesis
    apply (rule exI[where x = sim])
    apply (rule exI[where x = e])
    apply (rule exI[where x = w])
    apply (intro conjI)
    apply (rule init)
    apply (rule run)
    apply (rule req)
    apply (rule le)
    apply (rule ts)
    apply (rule rest[THEN conjunct1])
    apply (rule srt)
    done
qed

theorem zero_time_step_counterexample:
  "\<exists>sim e w.
     ParticleSimulation_init (\<lambda>_. default_particle) 0 4 2 None = Inr sim \<and>
     worker_loop (\<lambda>_. default_particle) None None
       [(None, [MESSAGE_REQUEST_SIM_UPDATE]), (None, [MESSAGE_REQUEST_SIM_UPDATE])]
       (initial_worker sim) = (e, w) \<and>
     update_times (w_to_gui w) = [0, 0]"
proof -
  let ?junk = "\<lambda>_::nat. default_particle"
  let ?inputs = "[(None, [MESSAGE_REQUEST_SIM_UPDATE]), (None, [MESSAGE_REQUEST_SIM_UPDATE])]"
  have "case ParticleSimulation_init ?junk 0 4 2 None of
          Inl e \<Rightarrow> False
        | Inr sim \<Rightarrow>
            update_times (w_to_gui (snd (worker_loop ?junk None None ?inputs (initial_worker sim))))
              = [0, 0]"
    by code_simp
  then obtain sim where
    init: "ParticleSimulation_init ?junk 0 4 2 None = Inr sim"
    and r: "update_times (w_to_gui (snd (worker_loop ?junk None None ?inputs (initial_worker sim))))
              = [0, 0]"
    by (blast dest: sum_case_Inr)
  obtain e w where run: "worker_loop ?junk None None ?inputs (initial_worker sim) = (e, w)"
    by (cases "worker_loop ?junk None None ?inputs (initial_worker sim)")
  have ts: "update_times (w_to_gui w) = [0, 0]"
    using r unfolding run by simp
  show ?thesis
    apply (rule exI[where x = sim])
    apply (rule exI[where x = e])
    apply (rule exI[where x = w])
    apply (intro conjI)
    apply (rule init)
    apply (rule run)
    apply (rule ts)
    done
qed

section \<open>The search of the k-d tree against brute force\<close>

lemma build_loop_diverges:
  assumes "indices \<noteq> []" and "\<forall>i\<in>set indices. i < length data"
    and "diverges data bucket_size indices"
  shows "build_loop fuel data bucket_size ((indices, parent) # stack) nodes parents buckets i = None"
proof (induction fuel arbitrary: parent stack nodes parents buckets i)
  case 0
  then show ?case by simp
next
  case (Suc fuel)
  have big: "\<not> int (length indices) \<le> bucket_size"
    using assms(3) by (simp add: diverges_def)
  have left: "left_of data indices = indices"
    using assms(1,3) by (simp add: diverges_def identical_left_of)
  have "build_loop (Suc fuel) data bucket_size ((indices, parent) # stack) nodes parents buckets i =
          build_loop fuel data bucket_size
               ((indices, Some i) # (right_of data indices, Some i) # stack)
               (nodes @ [node_of data indices (- 1)])
               (parents @ [parent]) buckets (i + 1)"
    unfolding build_loop_Suc[OF assms(1,2)] left using big by (simp only: if_False)
  then show ?case
    by (simp only: Suc.IH)
qed

lemma KDTree_init_diverges:
  assumes "1 \<le> bucket_size" and "bucket_size < int (length data)"
    and "\<forall>i<length data. data ! i = data ! 0"
  shows "KDTree_init fuel data bucket_size = None"
proof -
  have ne: "[0..<length data] \<noteq> []" using assms(1,2) by auto
  have valid: "\<forall>i\<in>set [0..<length data]. i < length data" by simp
  have "identical data [0..<length data]"
    using assms(3) by (simp add: identical_def)
  then have "diverges data bucket_size [0..<length data]"
    using assms(2) by (simp add: diverges_def)
  with ne valid
  have "build_loop fuel data bucket_size [([0..<length data], None)] [] [] [] 0 = None"
    by (rule build_loop_diverges)
  then show ?thesis
    using assms(1) by (simp add: KDTree_init_def)
qed

text \<open>
  The brute-force reference of the specification: the squared distances of all points
  to the query point, those within the radius kept, sorted ascending, the first
  \<^verbatim>\<open>count\<close> taken; nothing for a count of zero or less or a negative radius. Whether a
  point at exactly the radius is within it is left open there, so it is a parameter
  here: \<open>inclusive\<close> keeps such a point.
\<close>

definition brute_force_reference ::
  "bool \<Rightarrow> point list \<Rightarrow> point \<Rightarrow> int option \<Rightarrow> real option \<Rightarrow> neighbour list" where
  "brute_force_reference inclusive data p count radius =
     (if (case count of None \<Rightarrow> False | Some c \<Rightarrow> c \<le> 0)
         \<or> (case radius of None \<Rightarrow> False | Some r \<Rightarrow> r < 0) then []
      else
        (let near = (\<lambda>d. case radius of
                              None \<Rightarrow> True
                            | Some r \<Rightarrow> if inclusive then d \<le> r ^ 2 else d < r ^ 2);
             found = sort (filter (\<lambda>item. near (fst item))
                             (map (\<lambda>i. (sq_dist p (data ! i), i)) [0..<length data]))
         in case count of None \<Rightarrow> found | Some c \<Rightarrow> take (nat c) found))"

lemma search_nothing_asked:
  assumes "(case count of None \<Rightarrow> False | Some c \<Rightarrow> c \<le> 0)
         \<or> (case radius of None \<Rightarrow> False | Some r \<Rightarrow> r < 0)"
  shows "search fuel tree p count radius do_sort = Some (Inr [])"
    and "brute_force_reference inclusive data p count radius = []"
proof -
  show "search fuel tree p count radius do_sort = Some (Inr [])"
    using assms by (cases count; cases radius) (auto simp: search_def)
  show "brute_force_reference inclusive data p count radius = []"
    using assms by (simp add: brute_force_reference_def)
qed

text \<open>
  Claim C1 does not hold of the code. With the points \<open>(1, 0)\<close> and \<open>(5, 5)\<close>, the query
  point \<open>(0, 0)\<close> and the radius \<open>1\<close>, the first point is at exactly the radius. Asked
  for one neighbour, \<^verbatim>\<open>search\<close> takes the path of \<^verbatim>\<open>_search_k_nearests\<close>, which keeps a
  point only when \<^verbatim>\<open>dist < dist_limit\<close>, and finds nothing; asked for two, it takes the
  path of \<^verbatim>\<open>_search_all_within_radius\<close>, which keeps the points with
  \<^verbatim>\<open>dists <= radius\<close>, and finds the first point. Whichever way the reference reads
  ``within the radius'', one of the two answers differs from it. And on two copies of one
  point with a bucket size of 1 the construction of the tree never comes to an end, so
  there is no tree to search.
\<close>

theorem search_differs_from_brute_force:
  "\<exists>tree.
     KDTree_init 10 [(1, 0), (5, 5)] 128 = Some (Inr tree) \<and>
     search 10 tree (0, 0) (Some 1) (Some 1) True = Some (Inr []) \<and>
     brute_force_reference True [(1, 0), (5, 5)] (0, 0) (Some 1) (Some 1) = [(1, 0)] \<and>
     search 10 tree (0, 0) (Some 2) (Some 1) True = Some (Inr [(1, 0)]) \<and>
     brute_force_reference False [(1, 0), (5, 5)] (0, 0) (Some 2) (Some 1) = [] \<and>
     (\<forall>fuel. KDTree_init fuel [(0, 0), (0, 0)] 1 = None)"
proof -
  have "case KDTree_init 10 [(1, 0), (5, 5)] 128 of
          None \<Rightarrow> False
        | Some (Inl e) \<Rightarrow> False
        | Some (Inr tree) \<Rightarrow>
            search 10 tree (0, 0) (Some 1) (Some 1) True = Some (Inr []) \<and>
            search 10 tree (0, 0) (Some 2) (Some 1) True = Some (Inr [(1, 0)])"
    by code_simp
  from option_sum_case_Inr[OF this] obtain tree where
    t: "KDTree_init 10 [(1, 0), (5, 5)] 128 = Some (Inr tree)"
    and s1: "search 10 tree (0, 0) (Some 1) (Some 1) True = Some (Inr [])"
    and s2: "search 10 tree (0, 0) (Some 2) (Some 1) True = Some (Inr [(1, 0)])"
    by (elim exE conjE) (rule that, assumption+)
  have b1: "brute_force_reference True [(1, 0), (5, 5)] (0, 0) (Some 1) (Some 1) = [(1, 0)]"
    by code_simp
  have b2: "brute_force_reference False [(1, 0), (5, 5)] (0, 0) (Some 2) (Some 1) = []"
    by code_simp
  have d: "\<forall>fuel. KDTree_init fuel [(0, 0), (0, 0)] 1 = None"
    by (intro allI KDTree_init_diverges) (simp_all add: nth_Cons')
  show ?thesis
    apply (rule exI[where x = tree])
    apply (intro conjI)
    apply (rule t)
    apply (rule s1)
    apply (rule b1)
    apply (rule s2)
    apply (rule b2)
    apply (rule d)
    done
qed

end
